theory Spec2Isabelle
  imports Complex_Main "HOL-Library.AList"
begin

section \<open>The Whisper worker supervisor\<close>

text \<open>
  The module under study keeps one long-lived transcription worker alive, multiplexes
  requests onto its standard input and correlates the JSON lines it prints with the
  callers that wait for them. It is written as module-level variables and event handlers;
  the model below is one record for those variables (together with the part of the
  runtime they act upon: timers, child processes, promises, the logger) and one function
  per exported function or handler. Node runs every handler to completion before the next
  one starts, so each handler is a function from state to state, and a run of the program
  is a list of events folded over the initial state.
\<close>

subsection \<open>Constants\<close>

definition TRANSCRIBE_TIMEOUT :: nat where
  "TRANSCRIBE_TIMEOUT = 120000"

definition MAX_RESTART_ATTEMPTS :: nat where
  "MAX_RESTART_ATTEMPTS = 5"

definition RESTART_WINDOW :: int where
  "RESTART_WINDOW = 60000"

text \<open>
  The delay of the respawn timer is the literal 2000 in the exit handler.
\<close>

definition RESPAWN_DELAY :: nat where
  "RESPAWN_DELAY = 2000"

subsection \<open>JSON values as the handlers see them\<close>

text \<open>
  The result of \<^verbatim>\<open>JSON.parse\<close>. A number is its numerical value (both zeros
  are 0; the parser never yields NaN, and an overflowing literal gives an infinity, which
  behaves like any other non-zero number in what follows). An object is its property
  list, one entry per key. Strings are lists of code units below 256.
\<close>

datatype json =
  JNull
| JBool bool
| JNumber rat
| JString string
| JArray "json list"
| JObject "(string \<times> json) list"

text \<open>
  Reading a property of a value that is not \<^verbatim>\<open>null\<close>: \<open>None\<close> is
  \<^verbatim>\<open>undefined\<close>. Only the keys \<^verbatim>\<open>ready\<close>, \<^verbatim>\<open>id\<close>,
  \<^verbatim>\<open>error\<close> and \<^verbatim>\<open>text\<close> are ever read, and no prototype of a
  primitive, an array or a plain object defines one of them. Reading a property of
  \<^verbatim>\<open>null\<close> throws; the line handler treats that case before it calls \<open>property\<close>.
\<close>

fun property :: "json \<Rightarrow> string \<Rightarrow> json option" where
  "property (JObject kvs) k = map_of kvs k"
| "property _ k = None"

text \<open>JavaScript's truthiness of a value that may be \<^verbatim>\<open>undefined\<close>.\<close>

fun truthy :: "json option \<Rightarrow> bool" where
  "truthy None = False"
| "truthy (Some JNull) = False"
| "truthy (Some (JBool b)) = b"
| "truthy (Some (JNumber n)) = (n \<noteq> 0)"
| "truthy (Some (JString s)) = (s \<noteq> [])"
| "truthy (Some (JArray _)) = True"
| "truthy (Some (JObject _)) = True"

text \<open>\<^verbatim>\<open>data.text || ''\<close>\<close>

definition or_empty :: "json option \<Rightarrow> json" where
  "or_empty v = (case v of None \<Rightarrow> JString [] | Some x \<Rightarrow> if truthy v then x else JString [])"

subsection \<open>Encoding a request\<close>

text \<open>
  \<^verbatim>\<open>JSON.stringify\<close> on the object \<^verbatim>\<open>{ id, file: filePath }\<close> of two
  strings, following ECMAScript's QuoteJSONString on code units below 256: the quote, the
  backslash and the five named control characters get a two-character escape, every other
  control character becomes \<^verbatim>\<open>\u00XX\<close> with lower-case hexadecimal digits,
  and anything else stands for itself.
\<close>

definition hex_digit :: "nat \<Rightarrow> char" where
  "hex_digit d = ''0123456789abcdef'' ! d"

definition quote_char :: "char \<Rightarrow> string" where
  "quote_char c =
     (if c = CHR 0x08 then [CHR 0x5C, CHR ''b'']
      else if c = CHR 0x09 then [CHR 0x5C, CHR ''t'']
      else if c = CHR 0x0A then [CHR 0x5C, CHR ''n'']
      else if c = CHR 0x0C then [CHR 0x5C, CHR ''f'']
      else if c = CHR 0x0D then [CHR 0x5C, CHR ''r'']
      else if c = CHR 0x22 then [CHR 0x5C, CHR 0x22]
      else if c = CHR 0x5C then [CHR 0x5C, CHR 0x5C]
      else if (of_char c :: nat) < 32
        then [CHR 0x5C, CHR ''u'', CHR ''0'', CHR ''0'',
              hex_digit (of_char c div 16), hex_digit (of_char c mod 16)]
      else [c])"

definition JSON_quote :: "string \<Rightarrow> string" where
  "JSON_quote s = [CHR 0x22] @ concat (map quote_char s) @ [CHR 0x22]"

definition encode_request :: "string \<Rightarrow> string \<Rightarrow> string" where
  "encode_request ident filePath =
     ''{'' @ JSON_quote ''id'' @ '':'' @ JSON_quote ident @ '','' @
     JSON_quote ''file'' @ '':'' @ JSON_quote filePath @ ''}'' @ [CHR 0x0A]"

subsection \<open>Decoding on the wire\<close>

text \<open>
  The reading of a line by the JSON grammar, for the lines of the protocol: one object
  whose members are all strings, with optional white space between the tokens. On such a
  text this is what \<^verbatim>\<open>JSON.parse\<close> returns, and what the worker's reader gets
  from a request; \<open>None\<close> is every other text, whether it is JSON or not. An escape
  \<^verbatim>\<open>\uXXXX\<close> is read when it names a code unit below 256. Repeated keys keep
  the place of the first and the value of the last; the order of the members matters to
  no lookup.
\<close>

definition is_ws :: "char \<Rightarrow> bool" where
  "is_ws c \<longleftrightarrow> c = CHR 0x20 \<or> c = CHR 0x09 \<or> c = CHR 0x0A \<or> c = CHR 0x0D"

definition hex_value :: "char \<Rightarrow> nat option" where
  "hex_value c =
     (let n = (of_char c :: nat) in
      if 48 \<le> n \<and> n \<le> 57 then Some (n - 48)
      else if 97 \<le> n \<and> n \<le> 102 then Some (n - 87)
      else if 65 \<le> n \<and> n \<le> 70 then Some (n - 55)
      else None)"

text \<open>What follows a backslash inside a string: the character it stands for, and the rest.\<close>

definition unescape :: "string \<Rightarrow> (char \<times> string) option" where
  "unescape cs =
     (case cs of
        [] \<Rightarrow> None
      | e # r \<Rightarrow>
          if e = CHR 0x22 then Some (CHR 0x22, r)
          else if e = CHR 0x5C then Some (CHR 0x5C, r)
          else if e = CHR ''/'' then Some (CHR ''/'', r)
          else if e = CHR ''b'' then Some (CHR 0x08, r)
          else if e = CHR ''f'' then Some (CHR 0x0C, r)
          else if e = CHR ''n'' then Some (CHR 0x0A, r)
          else if e = CHR ''r'' then Some (CHR 0x0D, r)
          else if e = CHR ''t'' then Some (CHR 0x09, r)
          else if e = CHR ''u'' then
            (case r of
               a # b # c # d # r' \<Rightarrow>
                 (case (hex_value a, hex_value b, hex_value c, hex_value d) of
                    (Some ha, Some hb, Some h, Some l) \<Rightarrow>
                      if ha = 0 \<and> hb = 0 then Some (char_of (16 * h + l), r') else None
                  | _ \<Rightarrow> None)
             | _ \<Rightarrow> None)
          else None)"

text \<open>
  The characters of a string after its opening quote, up to the closing one. A raw control
  character is not allowed inside a string.
\<close>

function string_body :: "string \<Rightarrow> (string \<times> string) option" where
  "string_body [] = None"
| "string_body (c # cs) =
     (if c = CHR 0x22 then Some ([], cs)
      else if c = CHR 0x5C then
        (case unescape cs of
           None \<Rightarrow> None
         | Some (ch, r) \<Rightarrow>
             (case string_body r of
                None \<Rightarrow> None
              | Some (s, rest) \<Rightarrow> Some (ch # s, rest)))
      else if (of_char c :: nat) < 32 then None
      else
        (case string_body cs of
           None \<Rightarrow> None
         | Some (s, rest) \<Rightarrow> Some (c # s, rest)))"
  by pat_completeness auto
termination
  by (relation "measure length")
     (auto simp: unescape_def split: list.splits if_splits option.splits)

definition string_literal :: "string \<Rightarrow> (string \<times> string) option" where
  "string_literal s =
     (case s of
        [] \<Rightarrow> None
      | c # cs \<Rightarrow> if c = CHR 0x22 then string_body cs else None)"

text \<open>One member, \<^verbatim>\<open>"key": "value"\<close>, and the white space after it.\<close>

definition member :: "string \<Rightarrow> ((string \<times> json) \<times> string) option" where
  "member s =
     (case string_literal s of
        None \<Rightarrow> None
      | Some (k, r1) \<Rightarrow>
          (case dropWhile is_ws r1 of
             [] \<Rightarrow> None
           | c # r2 \<Rightarrow>
               if c = CHR '':'' then
                 (case string_literal (dropWhile is_ws r2) of
                    None \<Rightarrow> None
                  | Some (v, r3) \<Rightarrow> Some ((k, JString v), dropWhile is_ws r3))
               else None))"

text \<open>The members of an object from the first one to the closing brace.\<close>

function members :: "string \<Rightarrow> ((string \<times> json) list \<times> string) option" where
  "members s =
     (case member s of
        None \<Rightarrow> None
      | Some (kv, r) \<Rightarrow>
          (case r of
             [] \<Rightarrow> None
           | c # r' \<Rightarrow>
               if c = CHR ''}'' then Some ([kv], r')
               else if c = CHR '','' then
                 (case members (dropWhile is_ws r') of
                    None \<Rightarrow> None
                  | Some (kvs, rest) \<Rightarrow> Some (kv # kvs, rest))
               else None))"
  by pat_completeness auto
termination
proof -
  have esc: "length r < length cs" if "unescape cs = Some (ch, r)" for cs ch r
    using that by (auto simp: unescape_def split: list.splits if_splits option.splits)
  have body: "string_body s = Some (x, r) \<Longrightarrow> length r < length s" for s x r
  proof (induction s arbitrary: x r rule: string_body.induct)
    case 1
    then show ?case by simp
  next
    case (2 c cs)
    then show ?case
      by (fastforce split: if_splits option.splits dest: esc)
  qed
  have lit: "length r < length s" if "string_literal s = Some (x, r)" for s x r
    using that by (auto simp: string_literal_def split: list.splits if_splits dest: body)
  have ws: "length (dropWhile is_ws xs) \<le> length xs" for xs
    by (induction xs) auto
  have mem: "length r < length s" if a: "member s = Some (kv, r)" for s kv r
  proof -
    from a obtain k r1 where 1: "string_literal s = Some (k, r1)"
      by (auto simp: member_def split: option.splits)
    with a obtain c r2 where 2: "dropWhile is_ws r1 = c # r2"
      by (auto simp: member_def split: option.splits list.splits)
    with a 1 obtain v r3 where 3: "string_literal (dropWhile is_ws r2) = Some (v, r3)"
      and 4: "r = dropWhile is_ws r3"
      by (auto simp: member_def split: option.splits list.splits if_splits)
    have "length r \<le> length r3" unfolding 4 by (rule ws)
    also have "\<dots> < length (dropWhile is_ws r2)" using 3 by (rule lit)
    also have "\<dots> \<le> length r2" by (rule ws)
    also have "\<dots> < length (dropWhile is_ws r1)" unfolding 2 by simp
    also have "\<dots> \<le> length r1" by (rule ws)
    also have "\<dots> < length s" using 1 by (rule lit)
    finally show ?thesis .
  qed
  show ?thesis
  proof (relation "measure length", goal_cases)
    case 1
    show ?case by simp
  next
    case (2 s x2 kv r c r')
    then have "length r < length s" by (auto dest: mem)
    moreover have "length (dropWhile is_ws r') \<le> length r'" by (rule ws)
    ultimately show ?case using 2 by simp
  qed
qed

declare members.simps [simp del]

definition parse_flat :: "string \<Rightarrow> json option" where
  "parse_flat line =
     (case dropWhile is_ws line of
        [] \<Rightarrow> None
      | c # r \<Rightarrow>
          if c = CHR ''{'' then
            (case dropWhile is_ws r of
               [] \<Rightarrow> None
             | d # r' \<Rightarrow>
                 if d = CHR ''}''
                 then (if dropWhile is_ws r' = [] then Some (JObject []) else None)
                 else
                   (case members (d # r') of
                      None \<Rightarrow> None
                    | Some (kvs, rest) \<Rightarrow>
                        if dropWhile is_ws rest = []
                        then Some (JObject (fold (\<lambda>kv m. AList.update (fst kv) (snd kv) m) kvs []))
                        else None))
          else None)"

subsection \<open>The worker\<close>

text \<open>
  Modelled from the spec: the worker script is not among the sources. The specification
  gives its success line as \<^verbatim>\<open>{"id": "<string>", "text": "<string>"}\<close>; an echoing
  worker reads the request, takes its \<^verbatim>\<open>id\<close> and answers with that identifier and
  a transcript.
\<close>

definition echo_response :: "string \<Rightarrow> string \<Rightarrow> string" where
  "echo_response ident transcript =
     ''{'' @ JSON_quote ''id'' @ '': '' @ JSON_quote ident @ '', '' @
     JSON_quote ''text'' @ '': '' @ JSON_quote transcript @ ''}''"

definition echo_worker :: "string \<Rightarrow> string \<Rightarrow> string option" where
  "echo_worker line transcript =
     (case parse_flat line of
        None \<Rightarrow> None
      | Some obj \<Rightarrow>
          (case property obj ''id'' of
             Some (JString ident) \<Rightarrow> Some (echo_response ident transcript)
           | _ \<Rightarrow> None))"

subsection \<open>Request identifiers\<close>

text \<open>
  \<^verbatim>\<open>requestCounter\<close> is a JavaScript number. Incrementing it is exact below
  \<open>2^53 = 9007199254740992\<close>; there the sum is not representable and rounds back,
  so the counter stays at that value.
\<close>

definition incr :: "nat \<Rightarrow> nat" where
  "incr n = (if n < 9007199254740992 then n + 1 else n)"

text \<open>The decimal digits of an integer, as the template literal prints them.\<close>

function decimal :: "nat \<Rightarrow> string" where
  "decimal n = (if n < 10 then [''0123456789'' ! n]
                else decimal (n div 10) @ [''0123456789'' ! (n mod 10)])"
  by pat_completeness auto
termination
  by (relation "measure id") auto

declare decimal.simps [simp del]

definition request_id :: "nat \<Rightarrow> string" where
  "request_id n = ''req-'' @ decimal n"

subsection \<open>State\<close>

text \<open>
  A pending entry holds the \<^verbatim>\<open>resolve\<close> and \<^verbatim>\<open>reject\<close> callbacks of
  one promise and the handle of one timer. Promises and timers are named by numbers: the
  \<open>k\<close>-th call of \<^verbatim>\<open>transcribe\<close> that registers a request creates promise
  \<open>k\<close> and timer \<open>k\<close>.
\<close>

record pending =
  promise :: nat
  timer :: nat

text \<open>
  An armed request timer: its delay and what its closure captured, the identifier it
  deletes and the promise it rejects.
\<close>

record timeout =
  delay :: nat
  request :: string
  caller :: nat

text \<open>
  \<^verbatim>\<open>new Error(m)\<close>, kept with the value \<open>m\<close> it was built from (its message is
  the string form of \<open>m\<close>). A settlement is one invocation of a promise's
  \<^verbatim>\<open>resolve\<close> or \<^verbatim>\<open>reject\<close>, with its argument.
\<close>

datatype error = Error json

datatype settlement = Resolved json | Rejected error

datatype level = Debug | Info | Warn | Err

text \<open>
  The first seven fields are the module's variables. \<^verbatim>\<open>pendingRequests\<close> is a Map,
  which iterates in insertion order: an association list with \<open>AList.update\<close> (replace in
  place or append) and \<open>AList.delete\<close>. The remaining fields are the world the module
  acts on: how many promises have a registered request, the armed request timers by
  handle, the delays of the armed respawn timers, the model each spawned child was given
  (a child's handle is its position), the children sent SIGTERM, what was written to
  which child's input, every callback invocation in order, and the log.
\<close>

record supervisor =
  whisperProcess :: "nat option"
  ready :: bool
  pendingRequests :: "(string \<times> pending) list"
  requestCounter :: nat
  restartAttempts :: "int list"
  circuitBroken :: bool
  whisperModel :: string
  promises :: nat
  timeouts :: "(nat \<times> timeout) list"
  respawns :: "nat list"
  children :: "string list"
  sigterm :: "nat list"
  stdin :: "(nat \<times> string) list"
  settled :: "(nat \<times> settlement) list"
  logger :: "(level \<times> string) list"

definition init :: supervisor where
  "init = \<lparr> whisperProcess = None, ready = False, pendingRequests = [],
     requestCounter = 0, restartAttempts = [], circuitBroken = False,
     whisperModel = ''medium'', promises = 0, timeouts = [], respawns = [],
     children = [], sigterm = [], stdin = [], settled = [], logger = [] \<rparr>"

subsection \<open>The exported functions\<close>

definition isWhisperReady :: "supervisor \<Rightarrow> bool" where
  "isWhisperReady s \<longleftrightarrow> ready s \<and> whisperProcess s \<noteq> None \<and> \<not> circuitBroken s"

text \<open>
  One turn of the loop shared by \<^verbatim>\<open>stopWhisper\<close> and
  \<^verbatim>\<open>rejectAllPending\<close>: clear the entry's timer, call its \<^verbatim>\<open>reject\<close>.
\<close>

definition reject_entry :: "string \<Rightarrow> string \<times> pending \<Rightarrow> supervisor \<Rightarrow> supervisor" where
  "reject_entry reason entry s =
     s\<lparr> timeouts := AList.delete (timer (snd entry)) (timeouts s),
        settled := settled s @ [(promise (snd entry), Rejected (Error (JString reason)))] \<rparr>"

definition rejectAllPending :: "string \<Rightarrow> supervisor \<Rightarrow> supervisor" where
  "rejectAllPending reason s =
     (fold (reject_entry reason) (pendingRequests s) s)\<lparr> pendingRequests := [] \<rparr>"

text \<open>
  \<^verbatim>\<open>spawnWhisper\<close> has no \<^verbatim>\<open>await\<close>: it runs to its end inside the call.
  \<open>now\<close> is what \<^verbatim>\<open>Date.now()\<close> returns.
\<close>

definition spawnWhisper :: "int \<Rightarrow> supervisor \<Rightarrow> supervisor" where
  "spawnWhisper now s =
     (if circuitBroken s
      then s\<lparr> logger := logger s @ [(Warn, ''Whisper circuit breaker open, not restarting'')] \<rparr>
      else
        let attempts = filter (\<lambda>t. now - t < RESTART_WINDOW) (restartAttempts s) in
        if length attempts \<ge> MAX_RESTART_ATTEMPTS
        then s\<lparr> restartAttempts := attempts, circuitBroken := True,
                logger := logger s @
                  [(Err, ''Whisper server crashed 5 times in 60s, circuit breaker open'')] \<rparr>
        else s\<lparr> restartAttempts := attempts @ [now], ready := False,
                whisperProcess := Some (length (children s)),
                children := children s @ [whisperModel s],
                logger := logger s @ [(Info, ''Starting Whisper server'')] \<rparr>)"

text \<open>
  \<^verbatim>\<open>startWhisper(model?)\<close>: an absent or empty model leaves the configured one.
\<close>

definition startWhisper :: "string option \<Rightarrow> int \<Rightarrow> supervisor \<Rightarrow> supervisor" where
  "startWhisper model now s =
     spawnWhisper now
       (case model of
          None \<Rightarrow> s
        | Some m \<Rightarrow> if m \<noteq> [] then s\<lparr> whisperModel := m \<rparr> else s)"

definition stopWhisper :: "supervisor \<Rightarrow> supervisor" where
  "stopWhisper s =
     (let s1 = rejectAllPending ''Whisper server stopping''
                 (s\<lparr> ready := False, circuitBroken := True \<rparr>)
      in case whisperProcess s1 of
           None \<Rightarrow> s1
         | Some p \<Rightarrow> s1\<lparr> sigterm := sigterm s1 @ [p], whisperProcess := None,
                        logger := logger s1 @ [(Info, ''Whisper server stopped'')] \<rparr>)"

text \<open>
  \<^verbatim>\<open>transcribe\<close> returns a promise. \<open>Inl\<close> is a promise rejected inside the call,
  \<open>Inr k\<close> is the pending promise \<open>k\<close>, settled later by a handler. The guard is
  the source's \<^verbatim>\<open>!ready || !whisperProcess || circuitBroken\<close>, written so that the
  process handle is bound where it is not null.
\<close>

definition transcribe :: "string \<Rightarrow> supervisor \<Rightarrow> (error + nat) \<times> supervisor" where
  "transcribe filePath s =
     (case whisperProcess s of
        None \<Rightarrow> (Inl (Error (JString ''Whisper server not ready'')), s)
      | Some proc \<Rightarrow>
          if \<not> ready s \<or> circuitBroken s
          then (Inl (Error (JString ''Whisper server not ready'')), s)
          else
            let n = incr (requestCounter s);
                ident = request_id n;
                k = promises s
            in (Inr k,
                s\<lparr> requestCounter := n,
                   promises := k + 1,
                   timeouts := timeouts s @
                     [(k, \<lparr> delay = TRANSCRIBE_TIMEOUT, request = ident, caller = k \<rparr>)],
                   pendingRequests :=
                     AList.update ident \<lparr> promise = k, timer = k \<rparr> (pendingRequests s),
                   stdin := stdin s @ [(proc, encode_request ident filePath)] \<rparr>))"

subsection \<open>The handlers\<close>

text \<open>
  The request timer's callback. A timer that was cleared, or has fired, is not armed and
  never runs.
\<close>

definition timeout_fires :: "nat \<Rightarrow> supervisor \<Rightarrow> supervisor" where
  "timeout_fires h s =
     (case map_of (timeouts s) h of
        None \<Rightarrow> s
      | Some t \<Rightarrow>
          s\<lparr> timeouts := AList.delete h (timeouts s),
             pendingRequests := AList.delete (request t) (pendingRequests s),
             settled := settled s @
               [(caller t, Rejected (Error (JString ''Whisper transcription timed out'')))] \<rparr>)"

text \<open>
  \<^verbatim>\<open>pendingRequests.get(id)\<close>: the keys are strings, and no other value equals one.
\<close>

fun Map_get :: "(string \<times> pending) list \<Rightarrow> json option \<Rightarrow> pending option" where
  "Map_get m (Some (JString k)) = map_of m k"
| "Map_get m _ = None"

fun Map_delete :: "json option \<Rightarrow> (string \<times> pending) list \<Rightarrow> (string \<times> pending) list" where
  "Map_delete (Some (JString k)) m = AList.delete k m"
| "Map_delete _ m = m"

datatype thrown = SyntaxError | TypeError

text \<open>
  \<^verbatim>\<open>new Error(m)\<close> converts \<open>m\<close> to a string, and the conversion of an object
  calls its \<^verbatim>\<open>toString\<close>. A parsed object with a key \<^verbatim>\<open>toString\<close> of its
  own hides the inherited method behind a value that cannot be called, and neither its
  own nor the inherited \<^verbatim>\<open>valueOf\<close> yields a primitive: the conversion throws a
  TypeError. An array is joined from the string forms of its elements other than
  \<^verbatim>\<open>null\<close>, so it throws when one of them does. Every other value has a string
  form.
\<close>

fun no_string_form :: "json \<Rightarrow> bool"
  and no_string_forms :: "json list \<Rightarrow> bool" where
  "no_string_form (JObject kvs) = (map_of kvs ''toString'' \<noteq> None)"
| "no_string_form (JArray xs) = no_string_forms xs"
| "no_string_form _ = False"
| "no_string_forms [] = False"
| "no_string_forms (x # xs) = (no_string_form x \<or> no_string_forms xs)"

text \<open>
  Which callback of the entry a response calls, and with what:
  \<^verbatim>\<open>if (data.error) pending.reject(new Error(data.error)); else pending.resolve(data.text || '')\<close>.
  \<open>Inl\<close> is the TypeError thrown while the error is built, before \<^verbatim>\<open>reject\<close>
  is called.
\<close>

definition answer :: "json \<Rightarrow> thrown + settlement" where
  "answer data =
     (case property data ''error'' of
        None \<Rightarrow> Inr (Resolved (or_empty (property data ''text'')))
      | Some e \<Rightarrow>
          if truthy (Some e)
          then (if no_string_form e then Inl TypeError else Inr (Rejected (Error e)))
          else Inr (Resolved (or_empty (property data ''text''))))"

text \<open>
  The part of the \<^verbatim>\<open>try\<close> block that follows the readiness test, for a parsed
  value that is not \<^verbatim>\<open>null\<close>. \<open>Inl\<close> carries what was thrown and the state
  reached when it was thrown: the entry is deleted and its timer cleared before the
  callback's argument is built.
\<close>

definition respond :: "json \<Rightarrow> supervisor \<Rightarrow> thrown \<times> supervisor + supervisor" where
  "respond data s =
     (let ident = property data ''id'' in
      if \<not> truthy ident then Inr s
      else
        (case Map_get (pendingRequests s) ident of
           None \<Rightarrow> Inr s
         | Some p \<Rightarrow>
             let s1 = s\<lparr> pendingRequests := Map_delete ident (pendingRequests s),
                         timeouts := AList.delete (timer p) (timeouts s) \<rparr>
             in (case answer data of
                   Inl err \<Rightarrow> Inl (err, s1)
                 | Inr x \<Rightarrow> Inr (s1\<lparr> settled := settled s1 @ [(promise p, x)] \<rparr>))))"

text \<open>
  The body of the \<^verbatim>\<open>try\<close> block of the stdout line handler. \<open>JSON_parse\<close> is
  the runtime's parser, \<open>None\<close> where it throws. The parser and the first property
  read, on \<^verbatim>\<open>null\<close>, throw before any assignment; the construction of the error
  throws after the entry is gone.
\<close>

definition try_line ::
  "(string \<Rightarrow> json option) \<Rightarrow> string \<Rightarrow> supervisor \<Rightarrow> thrown \<times> supervisor + supervisor" where
  "try_line JSON_parse line s =
     (case JSON_parse line of
        None \<Rightarrow> Inl (SyntaxError, s)
      | Some data \<Rightarrow>
          if data = JNull then Inl (TypeError, s)
          else if truthy (property data ''ready'')
          then Inr (s\<lparr> ready := True, restartAttempts := [],
                       logger := logger s @ [(Info, ''Whisper server ready'')] \<rparr>)
          else respond data s)"

text \<open>
  The handler: the \<^verbatim>\<open>catch\<close> logs a warning, whatever was thrown and wherever.
\<close>

definition stdout_line :: "(string \<Rightarrow> json option) \<Rightarrow> string \<Rightarrow> supervisor \<Rightarrow> supervisor" where
  "stdout_line JSON_parse line s =
     (case try_line JSON_parse line s of
        Inl (err, s') \<Rightarrow>
          s'\<lparr> logger := logger s' @ [(Warn, ''Failed to parse Whisper server output'')] \<rparr>
      | Inr s' \<Rightarrow> s')"

definition stderr_line :: "string \<Rightarrow> supervisor \<Rightarrow> supervisor" where
  "stderr_line line s = s\<lparr> logger := logger s @ [(Debug, line)] \<rparr>"

definition proc_error :: "int \<Rightarrow> supervisor \<Rightarrow> supervisor" where
  "proc_error now s =
     spawnWhisper now
       (rejectAllPending ''Whisper server process error''
          (s\<lparr> logger := logger s @ [(Err, ''Whisper server process error'')],
              ready := False, whisperProcess := None \<rparr>))"

definition proc_exit :: "supervisor \<Rightarrow> supervisor" where
  "proc_exit s =
     (let s1 = rejectAllPending ''Whisper server exited''
                 (s\<lparr> logger := logger s @ [(Warn, ''Whisper server exited'')],
                     ready := False, whisperProcess := None \<rparr>)
      in if \<not> circuitBroken s1 then s1\<lparr> respawns := respawns s1 @ [RESPAWN_DELAY] \<rparr> else s1)"

text \<open>
  The respawn timers all have the same delay, so the oldest armed one fires first.
\<close>

definition respawn_fires :: "int \<Rightarrow> supervisor \<Rightarrow> supervisor" where
  "respawn_fires now s =
     (case respawns s of
        [] \<Rightarrow> s
      | d # ds \<Rightarrow> spawnWhisper now (s\<lparr> respawns := ds \<rparr>))"

subsection \<open>Runs\<close>

text \<open>
  Everything that can happen to the module: a call of an exported function or the
  delivery of an event to one of its handlers. Events that read the clock carry the time.
\<close>

datatype event =
  Start "string option" int
| Stop
| Transcribe string
| Stdout_line string
| Stderr_line string
| Proc_error int
| Proc_exit
| Timeout_fires nat
| Respawn_fires int

fun step :: "(string \<Rightarrow> json option) \<Rightarrow> event \<Rightarrow> supervisor \<Rightarrow> supervisor" where
  "step P (Start model now) s = startWhisper model now s"
| "step P Stop s = stopWhisper s"
| "step P (Transcribe filePath) s = snd (transcribe filePath s)"
| "step P (Stdout_line line) s = stdout_line P line s"
| "step P (Stderr_line line) s = stderr_line line s"
| "step P (Proc_error now) s = proc_error now s"
| "step P Proc_exit s = proc_exit s"
| "step P (Timeout_fires h) s = timeout_fires h s"
| "step P (Respawn_fires now) s = respawn_fires now s"

definition run :: "(string \<Rightarrow> json option) \<Rightarrow> event list \<Rightarrow> supervisor \<Rightarrow> supervisor" where
  "run P es s = fold (step P) es s"

subsection \<open>Sample lines\<close>

text \<open>
  The examples below run the handlers on a few concrete lines. \<open>wire\<close> gives what
  \<^verbatim>\<open>JSON.parse\<close> returns on each of them; a line outside the table stands for
  output that is not JSON.
\<close>

definition wire :: "string \<Rightarrow> json option" where
  "wire line =
     (if line = ''{\"ready\": true}'' then Some (JObject [(''ready'', JBool True)])
      else if line = ''{\"ready\": true, \"id\": \"req-1\"}''
        then Some (JObject [(''ready'', JBool True), (''id'', JString ''req-1'')])
      else if line = ''{\"id\": \"req-1\", \"text\": \"hello\"}''
        then Some (JObject [(''id'', JString ''req-1''), (''text'', JString ''hello'')])
      else if line = ''{\"id\": \"req-1\", \"error\": \"boom\"}''
        then Some (JObject [(''id'', JString ''req-1''), (''error'', JString ''boom'')])
      else if line = ''{\"id\": \"req-1\", \"error\": {\"toString\": 1}}''
        then Some (JObject [(''id'', JString ''req-1''),
                            (''error'', JObject [(''toString'', JNumber 1)])])
      else if line = ''{\"id\": \"req-1\"}''
        then Some (JObject [(''id'', JString ''req-1'')])
      else if line = ''{\"id\": \"req-7\", \"text\": \"late\"}''
        then Some (JObject [(''id'', JString ''req-7''), (''text'', JString ''late'')])
      else if line = ''{\"text\": \"orphan\"}''
        then Some (JObject [(''text'', JString ''orphan'')])
      else if line = ''null'' then Some JNull
      else None)"

text \<open>A worker that has been started and has announced itself.\<close>

definition serving :: supervisor where
  "serving = run wire [Start None 0, Stdout_line ''{\"ready\": true}''] init"

text \<open>
  A worker that dies as soon as it is started: the initial start, then five exits, each
  followed two seconds later by its respawn timer.
\<close>

definition storm :: "event list" where
  "storm = [Start None 0, Proc_exit, Respawn_fires 2000, Proc_exit, Respawn_fires 4000,
            Proc_exit, Respawn_fires 6000, Proc_exit, Respawn_fires 8000,
            Proc_exit, Respawn_fires 10000]"

text \<open>
  A request is registered with a serving worker, and the worker answers it with an error
  that is an object with a \<^verbatim>\<open>toString\<close> member.
\<close>

definition mishap :: "event list" where
  "mishap = [Start None 0, Stdout_line ''{\"ready\": true}'', Transcribe ''a.wav'',
             Stdout_line ''{\"id\": \"req-1\", \"error\": {\"toString\": 1}}'']"

subsection \<open>Observations on a state\<close>

text \<open>
  How often a callback of promise \<open>k\<close> has been invoked, and whether timer \<open>k\<close> is
  armed.
\<close>

definition fired :: "supervisor \<Rightarrow> nat \<Rightarrow> nat" where
  "fired s k = length (filter (\<lambda>x. fst x = k) (settled s))"

definition armed :: "supervisor \<Rightarrow> nat \<Rightarrow> bool" where
  "armed s k \<longleftrightarrow> map_of (timeouts s) k \<noteq> None"

text \<open>
  The invariant of the request map. Timer handles are distinct, and each armed timer
  rejects the promise of its own number, which has been created. Pending entries have
  distinct keys and distinct timers; the timer of an entry is armed, bears the number of
  the entry's promise, and deletes the entry's own key. No promise has seen more than one
  callback, and none has seen one while its timer is armed or before it is created.
\<close>

definition sound :: "supervisor \<Rightarrow> bool" where
  "sound s \<longleftrightarrow>
     distinct (map fst (timeouts s)) \<and>
     (\<forall>x\<in>set (timeouts s). caller (snd x) = fst x \<and> fst x < promises s) \<and>
     distinct (map fst (pendingRequests s)) \<and>
     distinct (map (timer \<circ> snd) (pendingRequests s)) \<and>
     (\<forall>e\<in>set (pendingRequests s). promise (snd e) = timer (snd e) \<and>
        (\<exists>t. (timer (snd e), t) \<in> set (timeouts s) \<and> request t = fst e)) \<and>
     (\<forall>k. fired s k \<le> 1 \<and> (armed s k \<or> promises s \<le> k \<longrightarrow> fired s k = 0))"

text \<open>
  What one handler may change between two states: timers are armed only for promises
  created meanwhile, and a callback is invoked only for a promise whose timer was armed.
\<close>

definition frame :: "supervisor \<Rightarrow> supervisor \<Rightarrow> bool" where
  "frame s s' \<longleftrightarrow>
     promises s \<le> promises s' \<and>
     (\<forall>k. (armed s' k \<longrightarrow> armed s k \<or> promises s \<le> k) \<and>
          (fired s' k \<noteq> fired s k \<longrightarrow> armed s k))"

text \<open>
  Every pending key was built from a value the counter has taken.
\<close>

definition minted :: "supervisor \<Rightarrow> bool" where
  "minted s \<longleftrightarrow>
     (\<forall>e\<in>set (pendingRequests s). \<exists>n. 1 \<le> n \<and> n \<le> requestCounter s \<and> fst e = request_id n)"

section \<open>Properties\<close>

lemmas handler_defs =
  run_def startWhisper_def spawnWhisper_def stopWhisper_def transcribe_def
  timeout_fires_def stdout_line_def try_line_def respond_def answer_def or_empty_def
  stderr_line_def proc_error_def proc_exit_def respawn_fires_def rejectAllPending_def
  reject_entry_def isWhisperReady_def init_def incr_def request_id_def decimal.simps
  wire_def TRANSCRIBE_TIMEOUT_def MAX_RESTART_ATTEMPTS_def RESTART_WINDOW_def
  RESPAWN_DELAY_def Let_def

lemma serving_eq:
  "serving = init\<lparr> whisperProcess := Some 0, ready := True, children := [''medium''],
     logger := [(Info, ''Starting Whisper server''), (Info, ''Whisper server ready'')] \<rparr>"
  by (simp add: serving_def handler_defs)

subsection \<open>The restart ledger\<close>



lemma spawn_open:
  "circuitBroken s \<Longrightarrow> spawnWhisper now s =
     s\<lparr> logger := logger s @ [(Warn, ''Whisper circuit breaker open, not restarting'')] \<rparr>"
  by (simp add: spawnWhisper_def)





subsection \<open>Calls while the supervisor is not ready\<close>

text \<open>
  C4: a call of \<^verbatim>\<open>transcribe\<close> while \<^verbatim>\<open>isWhisperReady()\<close> is false
  (the flag is down, there is no process, or the breaker is open) returns a promise
  rejected at once with the not-ready error and leaves the whole state as it was: no
  entry, no counter increment, no timer, nothing written to the worker.
\<close>

theorem transcribe_not_ready:
  "\<not> isWhisperReady s \<Longrightarrow>
   transcribe filePath s = (Inl (Error (JString ''Whisper server not ready'')), s)"
  by (auto simp: transcribe_def isWhisperReady_def split: option.splits)

theorem transcribe_not_ready_witness:
  "\<not> isWhisperReady (stopWhisper serving) \<and>
   transcribe ''a.wav'' (stopWhisper serving) =
     (Inl (Error (JString ''Whisper server not ready'')), stopWhisper serving)"
proof -
  have "\<not> isWhisperReady (stopWhisper serving)"
    by (simp add: serving_eq handler_defs)
  with transcribe_not_ready [of "stopWhisper serving" "''a.wav''"] show ?thesis
    by simp
qed

subsection \<open>The stdout line handler\<close>

text \<open>
  C7: a line whose parsed value has a truthy \<^verbatim>\<open>ready\<close> property is a readiness
  signal whatever else it carries: the handler raises the \<^verbatim>\<open>ready\<close> flag,
  empties the restart ledger, logs, and returns. Pending entries, timers and callbacks
  are untouched. \<^verbatim>\<open>isWhisperReady()\<close> is true afterwards exactly when there is a
  process and the breaker is closed, neither of which the line changes.
\<close>

theorem ready_signal:
  assumes "P line = Some data" and "truthy (property data ''ready'')"
  shows "stdout_line P line s =
           s\<lparr> ready := True, restartAttempts := [],
              logger := logger s @ [(Info, ''Whisper server ready'')] \<rparr> \<and>
         (isWhisperReady (stdout_line P line s) \<longleftrightarrow>
            whisperProcess s \<noteq> None \<and> \<not> circuitBroken s)"
proof -
  from assms(2) have "data \<noteq> JNull" by auto
  with assms have "stdout_line P line s =
           s\<lparr> ready := True, restartAttempts := [],
              logger := logger s @ [(Info, ''Whisper server ready'')] \<rparr>"
    by (simp add: stdout_line_def try_line_def)
  then show ?thesis by (simp add: isWhisperReady_def)
qed

text \<open>
  A readiness line that also names the pending request \<^verbatim>\<open>req-1\<close>: the request
  stays pending.
\<close>

theorem ready_signal_witness:
  "wire ''{\"ready\": true, \"id\": \"req-1\"}'' =
     Some (JObject [(''ready'', JBool True), (''id'', JString ''req-1'')]) \<and>
   truthy (property (JObject [(''ready'', JBool True), (''id'', JString ''req-1'')]) ''ready'') \<and>
   map_of (pendingRequests (snd (transcribe ''a.wav'' serving))) ''req-1'' \<noteq> None \<and>
   stdout_line wire ''{\"ready\": true, \"id\": \"req-1\"}'' (snd (transcribe ''a.wav'' serving)) =
     (snd (transcribe ''a.wav'' serving))
       \<lparr> ready := True, restartAttempts := [],
         logger := logger (snd (transcribe ''a.wav'' serving)) @
           [(Info, ''Whisper server ready'')] \<rparr> \<and>
   isWhisperReady (stdout_line wire ''{\"ready\": true, \"id\": \"req-1\"}''
     (snd (transcribe ''a.wav'' serving)))"
proof -
  have a: "wire ''{\"ready\": true, \"id\": \"req-1\"}'' =
     Some (JObject [(''ready'', JBool True), (''id'', JString ''req-1'')])"
    by (simp add: wire_def)
  have b: "truthy (property (JObject [(''ready'', JBool True), (''id'', JString ''req-1'')]) ''ready'')"
    by simp
  have c: "map_of (pendingRequests (snd (transcribe ''a.wav'' serving))) ''req-1'' \<noteq> None"
    and d: "whisperProcess (snd (transcribe ''a.wav'' serving)) \<noteq> None"
    and e: "\<not> circuitBroken (snd (transcribe ''a.wav'' serving))"
    by (simp_all add: serving_eq handler_defs)
  note r = ready_signal [where P = wire and line = "''{\"ready\": true, \"id\": \"req-1\"}''"
      and s = "snd (transcribe ''a.wav'' serving)", OF a b]
  from r d e have "isWhisperReady (stdout_line wire ''{\"ready\": true, \"id\": \"req-1\"}''
     (snd (transcribe ''a.wav'' serving)))"
    by blast
  with r a b c show ?thesis
    by blast
qed

text \<open>
  C8: a line that does not parse, a parsed line without a truthy \<^verbatim>\<open>ready\<close> and
  without a truthy \<^verbatim>\<open>id\<close>, and a parsed line whose \<^verbatim>\<open>id\<close> is the key of no
  pending entry are all dropped. The handler returns normally (its \<^verbatim>\<open>catch\<close> takes
  everything the \<^verbatim>\<open>try\<close> block can throw); the state is unchanged, except that a
  line on which the parser throws, and the line \<^verbatim>\<open>null\<close>, on which the property
  read throws, add a warning to the log.
\<close>

theorem dropped_line:
  assumes "P line = None \<or>
           (\<exists>data. P line = Some data \<and> \<not> truthy (property data ''ready'') \<and>
              (\<not> truthy (property data ''id'') \<or>
               Map_get (pendingRequests s) (property data ''id'') = None))"
  shows "stdout_line P line s =
           (if P line = None \<or> P line = Some JNull
            then s\<lparr> logger := logger s @
                   [(Warn, ''Failed to parse Whisper server output'')] \<rparr>
            else s)"
  using assms
  by (auto simp: stdout_line_def try_line_def respond_def Let_def split: option.splits)

text \<open>
  With \<^verbatim>\<open>req-1\<close> pending: a traceback, a line without identifier and a response
  to \<^verbatim>\<open>req-7\<close>.
\<close>

theorem dropped_line_witness:
  "stdout_line wire ''Traceback (most recent call last):'' (snd (transcribe ''a.wav'' serving)) =
     (snd (transcribe ''a.wav'' serving))
       \<lparr> logger := logger (snd (transcribe ''a.wav'' serving)) @
           [(Warn, ''Failed to parse Whisper server output'')] \<rparr> \<and>
   stdout_line wire ''{\"text\": \"orphan\"}'' (snd (transcribe ''a.wav'' serving)) =
     snd (transcribe ''a.wav'' serving) \<and>
   stdout_line wire ''{\"id\": \"req-7\", \"text\": \"late\"}'' (snd (transcribe ''a.wav'' serving)) =
     snd (transcribe ''a.wav'' serving)"
proof -
  let ?s = "snd (transcribe ''a.wav'' serving)"
  have a: "wire ''Traceback (most recent call last):'' = None"
    by (simp add: wire_def)
  have b: "wire ''{\"text\": \"orphan\"}'' = Some (JObject [(''text'', JString ''orphan'')])"
    by (simp add: wire_def)
  have c: "wire ''{\"id\": \"req-7\", \"text\": \"late\"}'' =
             Some (JObject [(''id'', JString ''req-7''), (''text'', JString ''late'')])"
    by (simp add: wire_def)
  have d: "Map_get (pendingRequests ?s) (Some (JString ''req-7'')) = None"
    by (simp add: serving_eq handler_defs)
  show ?thesis
    using dropped_line [of wire "''Traceback (most recent call last):''" ?s]
      dropped_line [of wire "''{\"text\": \"orphan\"}''" ?s]
      dropped_line [of wire "''{\"id\": \"req-7\", \"text\": \"late\"}''" ?s]
      a b c d
    by simp
qed

text \<open>
  C10: a response to a pending identifier with no truthy \<^verbatim>\<open>error\<close> and a missing or
  falsy \<^verbatim>\<open>text\<close> calls the entry's \<^verbatim>\<open>resolve\<close> with the empty string: the
  resulting state does not depend on whether \<^verbatim>\<open>text\<close> was absent, null or empty, and
  the caller is never rejected. Identifiers are the strings \<open>request_id n\<close>.
\<close>

theorem absent_text_is_empty:
  assumes "P line = Some data"
    and "\<not> truthy (property data ''ready'')"
    and "property data ''id'' = Some (JString (request_id n))"
    and "map_of (pendingRequests s) (request_id n) = Some e"
    and "\<not> truthy (property data ''error'')"
    and "\<not> truthy (property data ''text'')"
  shows "stdout_line P line s =
           s\<lparr> pendingRequests := AList.delete (request_id n) (pendingRequests s),
              timeouts := AList.delete (timer e) (timeouts s),
              settled := settled s @ [(promise e, Resolved (JString []))] \<rparr>"
proof -
  from assms(3) have nn: "data \<noteq> JNull" by auto
  from assms(5) have "answer data = Inr (Resolved (or_empty (property data ''text'')))"
    by (auto simp: answer_def split: option.splits)
  moreover from assms(6) have "or_empty (property data ''text'') = JString []"
    by (auto simp: or_empty_def split: option.splits)
  ultimately show ?thesis
    using assms nn
    by (simp add: stdout_line_def try_line_def respond_def Let_def request_id_def)
qed

theorem absent_text_is_empty_witness:
  "settled (stdout_line wire ''{\"id\": \"req-1\"}'' (snd (transcribe ''a.wav'' serving))) =
     [(0, Resolved (JString []))] \<and>
   pendingRequests (stdout_line wire ''{\"id\": \"req-1\"}'' (snd (transcribe ''a.wav'' serving))) = []"
proof -
  let ?s = "snd (transcribe ''a.wav'' serving)"
  let ?d = "JObject [(''id'', JString ''req-1'')]"
  have a: "wire ''{\"id\": \"req-1\"}'' = Some ?d"
    by (simp add: wire_def)
  have b: "\<not> truthy (property ?d ''ready'')"
    and c: "property ?d ''id'' = Some (JString (request_id 1))"
    and d: "\<not> truthy (property ?d ''error'')"
    and e: "\<not> truthy (property ?d ''text'')"
    by (simp_all add: request_id_def decimal.simps)
  have f: "map_of (pendingRequests ?s) (request_id 1) = Some \<lparr> promise = 0, timer = 0 \<rparr>"
    by (simp add: serving_eq handler_defs)
  have g: "settled ?s = []" and h: "pendingRequests ?s = [(''req-1'', \<lparr> promise = 0, timer = 0 \<rparr>)]"
    by (simp_all add: serving_eq handler_defs)
  show ?thesis
    unfolding absent_text_is_empty
      [where P = wire and line = "''{\"id\": \"req-1\"}''", OF a b c f d e]
    using g h
    by (simp add: request_id_def decimal.simps)
qed

subsection \<open>Every request is settled at most once\<close>

lemma AList_delete_filter: "AList.delete k xs = filter (\<lambda>p. fst p \<noteq> k) xs"
  by (induction xs) auto

lemma armed_iff: "armed s k \<longleftrightarrow> k \<in> fst ` set (timeouts s)"
  by (simp add: armed_def map_of_eq_None_iff)

lemma sound_init: "sound init"
  by (simp add: sound_def init_def fired_def armed_def)

lemma sound_cong:
  assumes "sound s" and "timeouts s' = timeouts s" and "pendingRequests s' = pendingRequests s"
    and "settled s' = settled s" and "promises s' = promises s"
  shows "sound s'"
proof -
  have "fired s' = fired s" and "armed s' = armed s"
    using assms(2,4) by (simp_all add: fun_eq_iff fired_def armed_def)
  with assms show ?thesis
    unfolding sound_def by simp
qed

lemma frame_cong:
  assumes "timeouts s' = timeouts s" and "settled s' = settled s" and "promises s' = promises s"
  shows "frame s s'"
proof -
  have "fired s' = fired s" and "armed s' = armed s"
    using assms by (simp_all add: fun_eq_iff fired_def armed_def)
  with assms show ?thesis
    unfolding frame_def by simp
qed

lemma frame_after:
  assumes "frame s s'" and "timeouts s'' = timeouts s'" and "settled s'' = settled s'"
    and "promises s'' = promises s'"
  shows "frame s s''"
proof -
  have "fired s'' = fired s'" and "armed s'' = armed s'"
    using assms by (simp_all add: fun_eq_iff fired_def armed_def)
  with assms show ?thesis
    unfolding frame_def by simp
qed

lemma frame_before:
  assumes "frame s' s''" and "timeouts s' = timeouts s" and "settled s' = settled s"
    and "promises s' = promises s"
  shows "frame s s''"
proof -
  have "fired s' = fired s" and "armed s' = armed s"
    using assms by (simp_all add: fun_eq_iff fired_def armed_def)
  with assms show ?thesis
    unfolding frame_def by simp
qed

lemma count_one:
  "distinct (map f xs) \<Longrightarrow> length (filter (\<lambda>x. f x = k) xs) = (if k \<in> f ` set xs then 1 else 0)"
  by (induction xs) (auto simp: image_iff)

text \<open>
  Removing an entry together with its armed timer, with the callback of its promise
  (\<open>ys = [(h, x)]\<close>) or, when building the callback's argument throws, without
  (\<open>ys = []\<close>).
\<close>

lemma settle:
  assumes "sound s" and ah: "armed s h"
    and key: "\<forall>e\<in>set (pendingRequests s). timer (snd e) = h \<longrightarrow> fst e = k"
    and ys: "ys = [] \<or> ys = [(h, x)]"
  shows "sound (s\<lparr> timeouts := AList.delete h (timeouts s),
                   pendingRequests := AList.delete k (pendingRequests s),
                   settled := settled s @ ys \<rparr>) \<and>
         frame s (s\<lparr> timeouts := AList.delete h (timeouts s),
                     pendingRequests := AList.delete k (pendingRequests s),
                     settled := settled s @ ys \<rparr>)"
    (is "sound ?s \<and> frame s ?s")
proof -
  from assms have d1: "distinct (map fst (timeouts s))"
    and cl: "\<forall>x\<in>set (timeouts s). caller (snd x) = fst x \<and> fst x < promises s"
    and d2: "distinct (map fst (pendingRequests s))"
    and d3: "distinct (map (timer \<circ> snd) (pendingRequests s))"
    and en: "\<forall>e\<in>set (pendingRequests s). promise (snd e) = timer (snd e) \<and>
        (\<exists>t. (timer (snd e), t) \<in> set (timeouts s) \<and> request t = fst e)"
    and fi: "\<forall>k. fired s k \<le> 1 \<and> (armed s k \<or> promises s \<le> k \<longrightarrow> fired s k = 0)"
    by (auto simp: sound_def)
  from ah cl have hp: "h < promises s" by (auto simp: armed_iff)
  have a': "armed ?s j \<longleftrightarrow> armed s j \<and> j \<noteq> h" for j
    by (auto simp: armed_iff AList_delete_filter)
  have f': "fired ?s j = fired s j + (if j = h \<and> ys \<noteq> [] then 1 else 0)" for j
    using ys by (auto simp: fired_def)
  have "sound ?s"
    unfolding sound_def
  proof (intro conjI)
    show "distinct (map fst (timeouts ?s))"
      using d1 by (simp add: AList_delete_filter distinct_map_filter)
    show "\<forall>x\<in>set (timeouts ?s). caller (snd x) = fst x \<and> fst x < promises ?s"
      using cl by (auto simp: AList_delete_filter)
    show "distinct (map fst (pendingRequests ?s))"
      using d2 by (simp add: AList_delete_filter distinct_map_filter)
    show "distinct (map (timer \<circ> snd) (pendingRequests ?s))"
      using d3 by (simp add: AList_delete_filter distinct_map_filter)
    show "\<forall>e\<in>set (pendingRequests ?s). promise (snd e) = timer (snd e) \<and>
        (\<exists>t. (timer (snd e), t) \<in> set (timeouts ?s) \<and> request t = fst e)"
    proof
      fix e assume "e \<in> set (pendingRequests ?s)"
      then have e: "e \<in> set (pendingRequests s)" and ne: "fst e \<noteq> k"
        by (auto simp: AList_delete_filter)
      with key have "timer (snd e) \<noteq> h" by auto
      with en e show "promise (snd e) = timer (snd e) \<and>
        (\<exists>t. (timer (snd e), t) \<in> set (timeouts ?s) \<and> request t = fst e)"
        by (auto simp: AList_delete_filter)
    qed
    show "\<forall>k. fired ?s k \<le> 1 \<and> (armed ?s k \<or> promises ?s \<le> k \<longrightarrow> fired ?s k = 0)"
      using fi ah hp unfolding a' f' by auto
  qed
  moreover have "frame s ?s"
    unfolding frame_def a' f' using ah by auto
  ultimately show ?thesis ..
qed

lemma timeout_fires_ok:
  assumes "sound s" shows "sound (timeout_fires h s) \<and> frame s (timeout_fires h s)"
proof (cases "map_of (timeouts s) h")
  case None
  then show ?thesis using assms by (simp add: timeout_fires_def frame_cong)
next
  case (Some t)
  then have mem: "(h, t) \<in> set (timeouts s)" by (rule map_of_SomeD)
  from assms have d1: "distinct (map fst (timeouts s))"
    and cl: "\<forall>x\<in>set (timeouts s). caller (snd x) = fst x \<and> fst x < promises s"
    and en: "\<forall>e\<in>set (pendingRequests s). promise (snd e) = timer (snd e) \<and>
        (\<exists>t. (timer (snd e), t) \<in> set (timeouts s) \<and> request t = fst e)"
    by (auto simp: sound_def)
  from cl mem have ch: "caller t = h" by auto
  have ah: "armed s h" using Some by (simp add: armed_def)
  have key: "\<forall>e\<in>set (pendingRequests s). timer (snd e) = h \<longrightarrow> fst e = request t"
  proof (intro ballI impI)
    fix e assume e: "e \<in> set (pendingRequests s)" and th: "timer (snd e) = h"
    from en e obtain t' where t': "(timer (snd e), t') \<in> set (timeouts s)" "request t' = fst e"
      by blast
    with th mem d1 have "t' = t" by (metis eq_key_imp_eq_value)
    with t'(2) show "fst e = request t" by simp
  qed
  have "[(h, Rejected (Error (JString ''Whisper transcription timed out'')))] = [] \<or>
        [(h, Rejected (Error (JString ''Whisper transcription timed out'')))] =
        [(h, Rejected (Error (JString ''Whisper transcription timed out'')))]"
    by simp
  from settle [OF assms ah key this] Some ch show ?thesis
    by (simp add: timeout_fires_def)
qed

text \<open>The state in which the \<^verbatim>\<open>try\<close> block ends, by its last statement or by a throw.\<close>

lemma respond_ok:
  assumes "sound s"
  shows "case respond data s of
           Inl (err, s') \<Rightarrow> sound s' \<and> frame s s'
         | Inr s' \<Rightarrow> sound s' \<and> frame s s'"
proof (cases "truthy (property data ''id'')")
  case False
  with assms show ?thesis by (simp add: respond_def Let_def frame_cong)
next
  case True
  show ?thesis
  proof (cases "Map_get (pendingRequests s) (property data ''id'')")
    case None
    with assms show ?thesis by (simp add: respond_def Let_def frame_cong)
  next
    case (Some p)
    then obtain k where k: "property data ''id'' = Some (JString k)"
      and mp: "map_of (pendingRequests s) k = Some p"
      by (cases "(pendingRequests s, property data ''id'')" rule: Map_get.cases) auto
    from mp have mem: "(k, p) \<in> set (pendingRequests s)" by (rule map_of_SomeD)
    from assms have d3: "distinct (map (timer \<circ> snd) (pendingRequests s))"
      and en: "\<forall>e\<in>set (pendingRequests s). promise (snd e) = timer (snd e) \<and>
        (\<exists>t. (timer (snd e), t) \<in> set (timeouts s) \<and> request t = fst e)"
      by (auto simp: sound_def)
    from en mem have pt: "promise p = timer p" and ah: "armed s (timer p)"
      by (force simp: armed_iff)+
    have key: "\<forall>e\<in>set (pendingRequests s). timer (snd e) = timer p \<longrightarrow> fst e = k"
    proof (intro ballI impI)
      fix e assume e: "e \<in> set (pendingRequests s)" and th: "timer (snd e) = timer p"
      from d3 have "inj_on (timer \<circ> snd) (set (pendingRequests s))"
        by (simp add: distinct_map)
      moreover from th have "(timer \<circ> snd) e = (timer \<circ> snd) (k, p)" by simp
      ultimately have "e = (k, p)" using e mem by (rule inj_onD)
      then show "fst e = k" by simp
    qed
    show ?thesis
    proof (cases "answer data")
      case (Inl err)
      have "respond data s =
              Inl (err, s\<lparr> timeouts := AList.delete (timer p) (timeouts s),
                           pendingRequests := AList.delete k (pendingRequests s),
                           settled := settled s @ [] \<rparr>)"
        using k mp True Inl by (simp add: respond_def Let_def)
      with settle [OF assms ah key, of "[]"] show ?thesis
        by simp
    next
      case (Inr x)
      have "respond data s =
              Inr (s\<lparr> timeouts := AList.delete (timer p) (timeouts s),
                      pendingRequests := AList.delete k (pendingRequests s),
                      settled := settled s @ [(timer p, x)] \<rparr>)"
        using k mp pt True Inr by (simp add: respond_def Let_def)
      with settle [OF assms ah key, of "[(timer p, x)]" x] show ?thesis
        by simp
    qed
  qed
qed

lemma stdout_line_ok:
  assumes "sound s" shows "sound (stdout_line P line s) \<and> frame s (stdout_line P line s)"
proof (cases "P line")
  case None
  with assms show ?thesis
    by (auto simp: stdout_line_def try_line_def intro: sound_cong frame_cong)
next
  case (Some data)
  show ?thesis
  proof (cases "data = JNull \<or> truthy (property data ''ready'')")
    case True
    with Some assms show ?thesis
      by (auto simp: stdout_line_def try_line_def intro: sound_cong frame_cong)
  next
    case False
    with Some have eq: "try_line P line s = respond data s"
      by (simp add: try_line_def)
    show ?thesis
    proof (cases "respond data s")
      case (Inl a)
      obtain err s' where a: "a = (err, s')" by (cases a)
      with Inl respond_ok [OF assms, of data] have "sound s'" "frame s s'" by simp_all
      then have "sound (s'\<lparr> logger := logger s' @ [(Warn, ''Failed to parse Whisper server output'')] \<rparr>)"
        "frame s (s'\<lparr> logger := logger s' @ [(Warn, ''Failed to parse Whisper server output'')] \<rparr>)"
        by (auto intro: sound_cong frame_after)
      with eq Inl a show ?thesis by (simp add: stdout_line_def)
    next
      case (Inr s')
      with respond_ok [OF assms, of data] eq show ?thesis
        by (simp add: stdout_line_def)
    qed
  qed
qed

lemma fold_reject_entry:
  "fold (reject_entry r) es s =
     s\<lparr> timeouts := filter (\<lambda>p. fst p \<notin> (timer \<circ> snd) ` set es) (timeouts s),
        settled := settled s @ map (\<lambda>e. (promise (snd e), Rejected (Error (JString r)))) es \<rparr>"
proof (induction es arbitrary: s)
  case Nil
  show ?case by simp
next
  case (Cons e es)
  have flt: "filter (\<lambda>p. fst p \<notin> (timer \<circ> snd) ` set es)
               (filter (\<lambda>p. fst p \<noteq> timer (snd e)) (timeouts s))
      = filter (\<lambda>p. fst p \<notin> (timer \<circ> snd) ` set (e # es)) (timeouts s)"
    by (auto intro: filter_cong)
  have "fold (reject_entry r) (e # es) s = fold (reject_entry r) es (reject_entry r e s)"
    by simp
  also have "\<dots> = (reject_entry r e s)
      \<lparr> timeouts := filter (\<lambda>p. fst p \<notin> (timer \<circ> snd) ` set es)
                      (timeouts (reject_entry r e s)),
        settled := settled (reject_entry r e s) @
          map (\<lambda>e. (promise (snd e), Rejected (Error (JString r)))) es \<rparr>"
    by (rule Cons.IH)
  also have "\<dots> = s\<lparr> timeouts := filter (\<lambda>p. fst p \<notin> (timer \<circ> snd) ` set (e # es)) (timeouts s),
        settled := settled s @
          map (\<lambda>e. (promise (snd e), Rejected (Error (JString r)))) (e # es) \<rparr>"
    unfolding flt [symmetric] by (simp add: reject_entry_def AList_delete_filter)
  finally show ?case .
qed

lemma rejectAllPending_eq:
  "rejectAllPending r s =
     s\<lparr> pendingRequests := [],
        timeouts := filter (\<lambda>p. fst p \<notin> (timer \<circ> snd) ` set (pendingRequests s)) (timeouts s),
        settled := settled s @
          map (\<lambda>e. (promise (snd e), Rejected (Error (JString r)))) (pendingRequests s) \<rparr>"
  by (simp add: rejectAllPending_def fold_reject_entry)

lemma rejectAllPending_ok:
  assumes "sound s"
  shows "sound (rejectAllPending r s) \<and> frame s (rejectAllPending r s) \<and>
         (\<forall>j. fired (rejectAllPending r s) j =
                fired s j + (if j \<in> (timer \<circ> snd) ` set (pendingRequests s) then 1 else 0))"
proof -
  let ?T = "(timer \<circ> snd) ` set (pendingRequests s)"
  let ?s = "rejectAllPending r s"
  from assms have d1: "distinct (map fst (timeouts s))"
    and cl: "\<forall>x\<in>set (timeouts s). caller (snd x) = fst x \<and> fst x < promises s"
    and d3: "distinct (map (timer \<circ> snd) (pendingRequests s))"
    and en: "\<forall>e\<in>set (pendingRequests s). promise (snd e) = timer (snd e) \<and>
        (\<exists>t. (timer (snd e), t) \<in> set (timeouts s) \<and> request t = fst e)"
    and fi: "\<forall>k. fired s k \<le> 1 \<and> (armed s k \<or> promises s \<le> k \<longrightarrow> fired s k = 0)"
    by (auto simp: sound_def)
  have a': "armed ?s j \<longleftrightarrow> armed s j \<and> j \<notin> ?T" for j
    unfolding rejectAllPending_eq by (auto simp: armed_iff)
  have "filter (\<lambda>e. promise (snd e) = j) (pendingRequests s) =
        filter (\<lambda>e. (timer \<circ> snd) e = j) (pendingRequests s)" for j
    using en by (intro filter_cong) auto
  then have cnt: "length (filter (\<lambda>e. promise (snd e) = j) (pendingRequests s)) =
             (if j \<in> ?T then 1 else 0)" for j
    using count_one [OF d3, of j] by simp
  have f': "fired ?s j = fired s j + (if j \<in> ?T then 1 else 0)" for j
    unfolding rejectAllPending_eq using cnt [of j]
    by (simp add: fired_def filter_map o_def)
  have inT: "armed s j \<and> j < promises s" if "j \<in> ?T" for j
  proof -
    from that obtain e where e: "e \<in> set (pendingRequests s)" "j = timer (snd e)" by auto
    with en obtain t where "(j, t) \<in> set (timeouts s)" by blast
    with cl show ?thesis by (force simp: armed_iff)
  qed
  have pr: "promises ?s = promises s"
    unfolding rejectAllPending_eq by simp
  have "sound ?s"
    unfolding sound_def
  proof (intro conjI)
    show "distinct (map fst (timeouts ?s))"
      unfolding rejectAllPending_eq using d1 by (simp add: distinct_map_filter)
    show "\<forall>x\<in>set (timeouts ?s). caller (snd x) = fst x \<and> fst x < promises ?s"
      unfolding rejectAllPending_eq using cl by auto
    show "distinct (map fst (pendingRequests ?s))"
      unfolding rejectAllPending_eq by simp
    show "distinct (map (timer \<circ> snd) (pendingRequests ?s))"
      unfolding rejectAllPending_eq by simp
    show "\<forall>e\<in>set (pendingRequests ?s). promise (snd e) = timer (snd e) \<and>
        (\<exists>t. (timer (snd e), t) \<in> set (timeouts ?s) \<and> request t = fst e)"
      unfolding rejectAllPending_eq by simp
    show "\<forall>k. fired ?s k \<le> 1 \<and> (armed ?s k \<or> promises ?s \<le> k \<longrightarrow> fired ?s k = 0)"
      using fi inT unfolding a' f' pr by fastforce
  qed
  moreover have "frame s ?s"
    unfolding frame_def a' f' pr using inT by auto
  ultimately show ?thesis using f' by blast
qed

lemma distinct_map_update:
  assumes "distinct (map g xs)" and "g (k, v) \<notin> g ` set xs"
  shows "distinct (map g (AList.update k v xs))"
  using assms
proof (induction xs)
  case Nil
  then show ?case by simp
next
  case (Cons p ps)
  have sub: "set (AList.update k v ps) \<subseteq> insert (k, v) (set ps)"
    by (induction ps) auto
  from Cons show ?case
    using sub by (auto simp: image_iff)
qed

lemma set_update_subset: "set (AList.update k v ps) \<subseteq> insert (k, v) (set ps)"
  by (induction ps) auto

lemma transcribe_ok:
  assumes "sound s"
  shows "sound (snd (transcribe filePath s)) \<and> frame s (snd (transcribe filePath s))"
proof (cases "isWhisperReady s")
  case False
  with assms show ?thesis
    by (auto simp: transcribe_def isWhisperReady_def frame_cong split: option.splits)
next
  case True
  then obtain w where w: "whisperProcess s = Some w" and r: "ready s" "\<not> circuitBroken s"
    by (auto simp: isWhisperReady_def)
  define ident where "ident = request_id (incr (requestCounter s))"
  define k where "k = promises s"
  define t where "t = \<lparr> delay = TRANSCRIBE_TIMEOUT, request = ident, caller = k \<rparr>"
  define v where "v = \<lparr> promise = k, timer = k \<rparr>"
  let ?s = "snd (transcribe filePath s)"
  have flds: "timeouts ?s = timeouts s @ [(k, t)]"
    "pendingRequests ?s = AList.update ident v (pendingRequests s)"
    "settled ?s = settled s" "promises ?s = k + 1"
    using w r by (simp_all add: transcribe_def Let_def ident_def k_def t_def v_def)
  from assms have d1: "distinct (map fst (timeouts s))"
    and cl: "\<forall>x\<in>set (timeouts s). caller (snd x) = fst x \<and> fst x < promises s"
    and d2: "distinct (map fst (pendingRequests s))"
    and d3: "distinct (map (timer \<circ> snd) (pendingRequests s))"
    and en: "\<forall>e\<in>set (pendingRequests s). promise (snd e) = timer (snd e) \<and>
        (\<exists>t. (timer (snd e), t) \<in> set (timeouts s) \<and> request t = fst e)"
    and fi: "\<forall>k. fired s k \<le> 1 \<and> (armed s k \<or> promises s \<le> k \<longrightarrow> fired s k = 0)"
    by (auto simp: sound_def)
  have fresh: "k \<notin> fst ` set (timeouts s)"
    using cl by (auto simp: k_def)
  have old: "timer (snd e) < k" if "e \<in> set (pendingRequests s)" for e
    using en cl that unfolding k_def by fastforce
  have a': "armed ?s j \<longleftrightarrow> armed s j \<or> j = k" for j
    by (auto simp: armed_iff flds)
  have f': "fired ?s j = fired s j" for j
    by (simp add: fired_def flds)
  have "sound ?s"
    unfolding sound_def
  proof (intro conjI)
    show "distinct (map fst (timeouts ?s))"
      using d1 fresh by (simp add: flds)
    show "\<forall>x\<in>set (timeouts ?s). caller (snd x) = fst x \<and> fst x < promises ?s"
      using cl by (auto simp: flds t_def k_def)
    show "distinct (map fst (pendingRequests ?s))"
      using d2 by (simp add: flds distinct_update)
    show "distinct (map (timer \<circ> snd) (pendingRequests ?s))"
      unfolding flds
    proof (rule distinct_map_update [OF d3])
      show "(timer \<circ> snd) (ident, v) \<notin> (timer \<circ> snd) ` set (pendingRequests s)"
        using old by (auto simp: v_def)
    qed
    show "\<forall>e\<in>set (pendingRequests ?s). promise (snd e) = timer (snd e) \<and>
        (\<exists>t. (timer (snd e), t) \<in> set (timeouts ?s) \<and> request t = fst e)"
    proof
      fix e assume "e \<in> set (pendingRequests ?s)"
      then have "e = (ident, v) \<or> e \<in> set (pendingRequests s)"
        using set_update_subset [of ident v "pendingRequests s"] by (auto simp: flds)
      then show "promise (snd e) = timer (snd e) \<and>
        (\<exists>t. (timer (snd e), t) \<in> set (timeouts ?s) \<and> request t = fst e)"
      proof
        assume "e = (ident, v)"
        then show ?thesis by (auto simp: flds v_def t_def)
      next
        assume "e \<in> set (pendingRequests s)"
        with en show ?thesis by (auto simp: flds)
      qed
    qed
    show "\<forall>j. fired ?s j \<le> 1 \<and> (armed ?s j \<or> promises ?s \<le> j \<longrightarrow> fired ?s j = 0)"
      using fi unfolding a' f' flds(4) by (auto simp: k_def)
  qed
  moreover have "frame s ?s"
    unfolding frame_def a' f' flds(4) by (auto simp: k_def)
  ultimately show ?thesis ..
qed

lemma spawnWhisper_keeps [simp]:
  "timeouts (spawnWhisper now s) = timeouts s"
  "pendingRequests (spawnWhisper now s) = pendingRequests s"
  "settled (spawnWhisper now s) = settled s"
  "promises (spawnWhisper now s) = promises s"
  "requestCounter (spawnWhisper now s) = requestCounter s"
  by (simp_all add: spawnWhisper_def Let_def)

lemma spawnWhisper_ok:
  assumes "sound s' \<and> frame s s'"
  shows "sound (spawnWhisper now s') \<and> frame s (spawnWhisper now s')"
  using assms by (auto intro: sound_cong frame_after)

lemma after_reject_ok:
  assumes "sound s" and "timeouts s0 = timeouts s" and "pendingRequests s0 = pendingRequests s"
    and "settled s0 = settled s" and "promises s0 = promises s"
  shows "sound (rejectAllPending r s0) \<and> frame s (rejectAllPending r s0)"
proof -
  from assms have "sound s0" by (rule sound_cong)
  from rejectAllPending_ok [OF this, of r]
  have "sound (rejectAllPending r s0)" and "frame s0 (rejectAllPending r s0)" by simp_all
  with assms(2,4,5) show ?thesis by (auto intro: frame_before)
qed

lemma stopWhisper_ok:
  assumes "sound s" shows "sound (stopWhisper s) \<and> frame s (stopWhisper s)"
proof -
  have "sound (rejectAllPending ''Whisper server stopping''
                      (s\<lparr> ready := False, circuitBroken := True \<rparr>)) \<and>
        frame s (rejectAllPending ''Whisper server stopping''
                      (s\<lparr> ready := False, circuitBroken := True \<rparr>))"
    using assms by (rule after_reject_ok) simp_all
  then show ?thesis
    by (auto simp: stopWhisper_def Let_def split: option.splits intro: sound_cong frame_after)
qed

lemma proc_error_ok:
  assumes "sound s" shows "sound (proc_error now s) \<and> frame s (proc_error now s)"
proof -
  have "sound (rejectAllPending ''Whisper server process error''
          (s\<lparr> logger := logger s @ [(Err, ''Whisper server process error'')],
              ready := False, whisperProcess := None \<rparr>)) \<and>
        frame s (rejectAllPending ''Whisper server process error''
          (s\<lparr> logger := logger s @ [(Err, ''Whisper server process error'')],
              ready := False, whisperProcess := None \<rparr>))"
    using assms by (rule after_reject_ok) simp_all
  then show ?thesis
    unfolding proc_error_def by (rule spawnWhisper_ok)
qed

lemma proc_exit_ok:
  assumes "sound s" shows "sound (proc_exit s) \<and> frame s (proc_exit s)"
proof -
  have "sound (rejectAllPending ''Whisper server exited''
                 (s\<lparr> logger := logger s @ [(Warn, ''Whisper server exited'')],
                     ready := False, whisperProcess := None \<rparr>)) \<and>
        frame s (rejectAllPending ''Whisper server exited''
                 (s\<lparr> logger := logger s @ [(Warn, ''Whisper server exited'')],
                     ready := False, whisperProcess := None \<rparr>))"
    using assms by (rule after_reject_ok) simp_all
  then show ?thesis
    by (auto simp: proc_exit_def Let_def intro: sound_cong frame_after)
qed

lemma step_ok:
  assumes "sound s" shows "sound (step P e s) \<and> frame s (step P e s)"
proof (cases e)
  case (Start model now)
  have "sound (case model of None \<Rightarrow> s
                    | Some m \<Rightarrow> if m \<noteq> [] then s\<lparr> whisperModel := m \<rparr> else s) \<and>
        frame s (case model of None \<Rightarrow> s
                    | Some m \<Rightarrow> if m \<noteq> [] then s\<lparr> whisperModel := m \<rparr> else s)"
    using assms by (auto split: option.splits intro: sound_cong frame_cong)
  then show ?thesis
    unfolding Start step.simps startWhisper_def by (rule spawnWhisper_ok)
next
  case Stop
  with stopWhisper_ok [OF assms] show ?thesis by simp
next
  case (Transcribe f)
  with transcribe_ok [OF assms] show ?thesis by simp
next
  case (Stdout_line l)
  with stdout_line_ok [OF assms] show ?thesis by simp
next
  case (Stderr_line l)
  have "sound (stderr_line l s) \<and> frame s (stderr_line l s)"
    unfolding stderr_line_def using assms by (auto intro: sound_cong frame_cong)
  with Stderr_line show ?thesis by simp
next
  case (Proc_error now)
  with proc_error_ok [OF assms] show ?thesis by simp
next
  case Proc_exit
  with proc_exit_ok [OF assms] show ?thesis by simp
next
  case (Timeout_fires h)
  with timeout_fires_ok [OF assms] show ?thesis by simp
next
  case (Respawn_fires now)
  show ?thesis
  proof (cases "respawns s")
    case Nil
    with assms Respawn_fires show ?thesis by (simp add: respawn_fires_def frame_cong)
  next
    case (Cons d ds)
    have "sound (s\<lparr> respawns := ds \<rparr>) \<and> frame s (s\<lparr> respawns := ds \<rparr>)"
      using assms by (auto intro: sound_cong frame_cong)
    then have "sound (spawnWhisper now (s\<lparr> respawns := ds \<rparr>)) \<and>
               frame s (spawnWhisper now (s\<lparr> respawns := ds \<rparr>))"
      by (rule spawnWhisper_ok)
    with Cons Respawn_fires show ?thesis
      by (simp add: respawn_fires_def)
  qed
qed

lemma sound_fold: "sound s \<Longrightarrow> sound (fold (step P) es s)"
  by (induction es arbitrary: s) (simp_all add: step_ok)

lemma sound_run: "sound (run P es init)"
  unfolding run_def by (rule sound_fold) (rule sound_init)

text \<open>
  A promise that has been created and whose timer is not armed sees no further callback,
  and its timer is never armed again.
\<close>

lemma unarmed_stays:
  assumes "sound s" and "k < promises s" and "\<not> armed s k"
  shows "fired (run P es s) k = fired s k"
  using assms unfolding run_def
proof (induction es arbitrary: s)
  case Nil
  show ?case by simp
next
  case (Cons e es)
  from step_ok [OF Cons.prems(1), of P e]
  have a: "sound (step P e s)" and b: "frame s (step P e s)" by simp_all
  from b Cons.prems(2,3) have c: "k < promises (step P e s)" "\<not> armed (step P e s) k"
    "fired (step P e s) k = fired s k"
    unfolding frame_def by (auto simp: not_le)
  from Cons.IH [OF a c(1,2)] c(3) show ?case by simp
qed

text \<open>
  C1 holds in one half. No promise ever sees more than one callback. But a registered
  request can be left with none: \<^verbatim>\<open>req-1\<close> is pending, and the worker prints
  \<^verbatim>\<open>{"id": "req-1", "error": {"toString": 1}}\<close>. The handler deletes the entry and
  clears its timer, then \<^verbatim>\<open>new Error(data.error)\<close> throws, and the
  \<^verbatim>\<open>catch\<close> logs the parse warning. The promise has seen no callback, its timer
  is gone, the map is empty, and whatever happens afterwards it sees no callback.
\<close>

theorem unprintable_error_loses_request:
  "armed (run wire (butlast mishap) init) 0 \<and>
   pendingRequests (run wire (butlast mishap) init) = [(''req-1'', \<lparr> promise = 0, timer = 0 \<rparr>)] \<and>
   promises (run wire mishap init) = 1 \<and>
   \<not> armed (run wire mishap init) 0 \<and>
   pendingRequests (run wire mishap init) = [] \<and>
   settled (run wire mishap init) = [] \<and>
   last (logger (run wire mishap init)) = (Warn, ''Failed to parse Whisper server output'') \<and>
   (\<forall>P es. fired (run P es (run wire mishap init)) 0 = 0) \<and>
   (\<forall>P es k. fired (run P es init) k \<le> 1)"
proof -
  have before: "armed (run wire (butlast mishap) init) 0"
    "pendingRequests (run wire (butlast mishap) init) = [(''req-1'', \<lparr> promise = 0, timer = 0 \<rparr>)]"
    by (simp_all add: mishap_def armed_def handler_defs)
  have after: "promises (run wire mishap init) = 1" "\<not> armed (run wire mishap init) 0"
    "pendingRequests (run wire mishap init) = []" "settled (run wire mishap init) = []"
    "last (logger (run wire mishap init)) = (Warn, ''Failed to parse Whisper server output'')"
    by (simp_all add: mishap_def armed_def handler_defs)
  have inv: "sound (run wire mishap init)" by (rule sound_run)
  have never: "fired (run P es (run wire mishap init)) 0 = 0" for P es
    using unarmed_stays [OF inv, of 0 P es] after by (simp add: fired_def)
  have once: "fired (run P es init) k \<le> 1" for P es k
    using sound_run [of P es] by (simp add: sound_def)
  from before after never once show ?thesis by blast
qed

text \<open>After the lost response: the timer's turn, a late answer, the worker's exit, a stop.\<close>

theorem unprintable_error_loses_request_witness:
  "fired (run wire [Timeout_fires 0, Stdout_line ''{\"id\": \"req-1\", \"text\": \"hello\"}'',
                    Proc_exit, Stop] (run wire mishap init)) 0 = 0"
  using unprintable_error_loses_request by blast

subsection \<open>An open breaker stays open\<close>

lemma rejectAllPending_keeps [simp]:
  "circuitBroken (rejectAllPending r s) = circuitBroken s"
  "children (rejectAllPending r s) = children s"
  "whisperProcess (rejectAllPending r s) = whisperProcess s"
  "sigterm (rejectAllPending r s) = sigterm s"
  "ready (rejectAllPending r s) = ready s"
  "respawns (rejectAllPending r s) = respawns s"
  "logger (rejectAllPending r s) = logger s"
  "pendingRequests (rejectAllPending r s) = []"
  "requestCounter (rejectAllPending r s) = requestCounter s"
  by (simp_all add: rejectAllPending_eq)

lemma stdout_line_keeps [simp]:
  "circuitBroken (stdout_line P l s) = circuitBroken s"
  "children (stdout_line P l s) = children s"
  "whisperProcess (stdout_line P l s) = whisperProcess s"
  by (auto simp: stdout_line_def try_line_def respond_def Let_def
        split: option.splits sum.splits)

lemma step_open:
  assumes "circuitBroken s"
  shows "circuitBroken (step P e s) \<and> children (step P e s) = children s \<and>
         (whisperProcess s = None \<longrightarrow> whisperProcess (step P e s) = None)"
  using assms
  by (cases e)
     (auto simp: startWhisper_def spawn_open stopWhisper_def Let_def transcribe_def
        stderr_line_def proc_error_def proc_exit_def timeout_fires_def respawn_fires_def
        split: option.splits list.splits)

lemma run_open:
  assumes "circuitBroken s"
  shows "circuitBroken (run P es s) \<and> children (run P es s) = children s \<and>
         (whisperProcess s = None \<longrightarrow> whisperProcess (run P es s) = None)"
  using assms unfolding run_def
proof (induction es arbitrary: s)
  case Nil
  then show ?case by simp
next
  case (Cons e es)
  from step_open [OF Cons.prems, of P e] Cons.IH [of "step P e s"]
  show ?case by simp
qed

text \<open>
  C3, as the specification states it: a call of \<^verbatim>\<open>startWhisper\<close> while the breaker
  is open starts a new sequence of spawn attempts. Here the worker has died five times
  within ten seconds, the sixth attempt has opened the breaker, and a later
  \<^verbatim>\<open>startWhisper('small')\<close> spawns nothing: there are still five children, no
  process, and the breaker is still open.
\<close>

theorem start_while_open_counterexample:
  "circuitBroken (run wire storm init) \<and>
   length (children (run wire storm init)) = 5 \<and>
   length (children (startWhisper (Some ''small'') 100000 (run wire storm init))) = 5 \<and>
   whisperProcess (startWhisper (Some ''small'') 100000 (run wire storm init)) = None \<and>
   circuitBroken (startWhisper (Some ''small'') 100000 (run wire storm init))"
  by (simp add: storm_def handler_defs)

text \<open>
  C3, amended: while the breaker is open, \<^verbatim>\<open>startWhisper\<close> records the model, if
  one is given, and is then refused by the guard at the head of
  \<^verbatim>\<open>spawnWhisper\<close>: it logs the warning, spawns no worker, and leaves the process
  handle and the breaker as they were. Nothing in the module assigns false to
  \<^verbatim>\<open>circuitBroken\<close>: once open, the breaker is open after every run, and no run
  spawns a worker.
\<close>

theorem start_while_open:
  assumes "circuitBroken s"
  shows "children (startWhisper model now s) = children s \<and>
         whisperProcess (startWhisper model now s) = whisperProcess s \<and>
         circuitBroken (startWhisper model now s) \<and>
         whisperModel (startWhisper model now s) =
           (case model of None \<Rightarrow> whisperModel s
            | Some m \<Rightarrow> if m \<noteq> [] then m else whisperModel s) \<and>
         logger (startWhisper model now s) =
           logger s @ [(Warn, ''Whisper circuit breaker open, not restarting'')] \<and>
         (\<forall>P es. circuitBroken (run P es s) \<and> children (run P es s) = children s)"
  using assms run_open [OF assms]
  by (auto simp: startWhisper_def spawn_open split: option.splits)

text \<open>After \<^verbatim>\<open>stopWhisper\<close>, a start and a late respawn timer.\<close>

theorem start_while_open_witness:
  "circuitBroken (stopWhisper serving) \<and>
   children (startWhisper None 5000 (stopWhisper serving)) = [''medium''] \<and>
   whisperProcess (startWhisper None 5000 (stopWhisper serving)) = None \<and>
   children (run wire [Start None 9000, Respawn_fires 10000] (stopWhisper serving)) = [''medium'']"
proof -
  have a: "circuitBroken (stopWhisper serving)"
    by (simp add: stopWhisper_def Let_def split: option.splits)
  have b: "children (stopWhisper serving) = [''medium'']"
    and c: "whisperProcess (stopWhisper serving) = None"
    by (simp_all add: serving_eq handler_defs)
  from start_while_open [OF a, of None 5000] a b c show ?thesis
    by simp
qed

text \<open>
  C6: when a worker exits while the breaker is closed, the exit handler arms a
  2-second respawn timer. If \<^verbatim>\<open>stopWhisper\<close> runs before the timer fires, the timer
  stays armed, but its callback finds the breaker open: it logs the warning and returns.
  No run that follows the stop, whatever it contains, spawns a worker or sets the process
  handle.
\<close>

theorem stop_blocks_respawn:
  assumes "\<not> circuitBroken s"
  shows "respawns (proc_exit s) = respawns s @ [RESPAWN_DELAY] \<and>
         respawns (stopWhisper (proc_exit s)) = respawns s @ [RESPAWN_DELAY] \<and>
         (\<forall>now. respawn_fires now (stopWhisper (proc_exit s)) =
            (stopWhisper (proc_exit s))
              \<lparr> respawns := tl (respawns s @ [RESPAWN_DELAY]),
                logger := logger (stopWhisper (proc_exit s)) @
                  [(Warn, ''Whisper circuit breaker open, not restarting'')] \<rparr>) \<and>
         (\<forall>P es. children (run P es (stopWhisper (proc_exit s))) = children s \<and>
                 whisperProcess (run P es (stopWhisper (proc_exit s))) = None)"
proof -
  let ?s = "stopWhisper (proc_exit s)"
  have a: "respawns (proc_exit s) = respawns s @ [RESPAWN_DELAY]"
    and b: "children (proc_exit s) = children s"
    using assms by (simp_all add: proc_exit_def Let_def)
  have c: "respawns (stopWhisper x) = respawns x" "children (stopWhisper x) = children x"
    "circuitBroken (stopWhisper x)" "whisperProcess (stopWhisper x) = None" for x
    by (simp_all add: stopWhisper_def Let_def split: option.splits)
  have d: "respawn_fires now ?s =
            ?s\<lparr> respawns := tl (respawns s @ [RESPAWN_DELAY]),
                logger := logger ?s @
                  [(Warn, ''Whisper circuit breaker open, not restarting'')] \<rparr>" for now
  proof -
    obtain d ds where ds: "respawns s @ [RESPAWN_DELAY] = d # ds"
      by (cases "respawns s") auto
    then have "respawns ?s = d # ds"
      using a c(1) [of "proc_exit s"] by simp
    moreover from ds have "tl (respawns s @ [RESPAWN_DELAY]) = ds"
      by simp
    ultimately show ?thesis
      using c(3) [of "proc_exit s"] by (simp add: respawn_fires_def spawn_open)
  qed
  from run_open [OF c(3), of _ _ "proc_exit s"] c(2,4) [of "proc_exit s"] b
  have e: "children (run P es ?s) = children s \<and> whisperProcess (run P es ?s) = None" for P es
    by simp
  from a c(1) [of "proc_exit s"] d e show ?thesis by simp
qed

theorem stop_blocks_respawn_witness:
  "\<not> circuitBroken serving \<and>
   respawns (stopWhisper (proc_exit serving)) = [2000] \<and>
   children (respawn_fires 2000 (stopWhisper (proc_exit serving))) = [''medium''] \<and>
   children (run wire [Respawn_fires 2000] (stopWhisper (proc_exit serving))) = [''medium''] \<and>
   whisperProcess (run wire [Respawn_fires 2000] (stopWhisper (proc_exit serving))) = None"
proof -
  have a: "\<not> circuitBroken serving"
    and b: "respawns serving = []" and c: "children serving = [''medium'']"
    by (simp_all add: serving_eq init_def)
  have d: "children (stopWhisper (proc_exit serving)) = [''medium'']"
    by (simp add: serving_eq handler_defs)
  from stop_blocks_respawn [OF a] a b c d show ?thesis
    by (simp add: RESPAWN_DELAY_def)
qed

subsection \<open>Stopping\<close>

lemma sound_pending_armed:
  assumes "sound s" and "e \<in> set (pendingRequests s)"
  shows "promise (snd e) = timer (snd e) \<and> armed s (timer (snd e)) \<and>
         timer (snd e) < promises s \<and> fired s (promise (snd e)) = 0"
proof -
  from assms obtain t where "promise (snd e) = timer (snd e)"
    "(timer (snd e), t) \<in> set (timeouts s)"
    unfolding sound_def by blast
  moreover from this assms(1) have "armed s (timer (snd e))" "timer (snd e) < promises s"
    unfolding sound_def by (force simp: armed_iff)+
  moreover from assms(1)
  have "\<forall>k. fired s k \<le> 1 \<and> (armed s k \<or> promises s \<le> k \<longrightarrow> fired s k = 0)"
    by (simp add: sound_def)
  ultimately show ?thesis by simp
qed

lemma stopWhisper_fields:
  "settled (stopWhisper s) = settled s @
     map (\<lambda>e. (promise (snd e), Rejected (Error (JString ''Whisper server stopping''))))
       (pendingRequests s)"
  "timeouts (stopWhisper s) =
     filter (\<lambda>p. fst p \<notin> (timer \<circ> snd) ` set (pendingRequests s)) (timeouts s)"
  "pendingRequests (stopWhisper s) = []"
  "whisperProcess (stopWhisper s) = None"
  "sigterm (stopWhisper s) = (case whisperProcess s of None \<Rightarrow> sigterm s | Some p \<Rightarrow> sigterm s @ [p])"
  "ready (stopWhisper s) = False"
  "circuitBroken (stopWhisper s) = True"
  "promises (stopWhisper s) = promises s"
  by (simp_all add: stopWhisper_def Let_def rejectAllPending_eq split: option.splits)

text \<open>
  C5: in every reachable state, \<^verbatim>\<open>stopWhisper\<close> calls the \<^verbatim>\<open>reject\<close> of each
  pending entry once, in the order of the map, with the error
  \<^verbatim>\<open>Whisper server stopping\<close>; each of these promises had seen no callback before
  and has seen exactly one afterwards, and its timer is cleared. The map is then empty, the
  process, if there was one, has been sent SIGTERM and the handle is null, and
  \<^verbatim>\<open>isWhisperReady()\<close> is false.
\<close>

theorem stop_fails_all_pending:
  assumes "s = run P es init"
  shows "settled (stopWhisper s) = settled s @
           map (\<lambda>e. (promise (snd e), Rejected (Error (JString ''Whisper server stopping''))))
             (pendingRequests s) \<and>
         (\<forall>e\<in>set (pendingRequests s).
            fired s (promise (snd e)) = 0 \<and> fired (stopWhisper s) (promise (snd e)) = 1 \<and>
            \<not> armed (stopWhisper s) (timer (snd e))) \<and>
         pendingRequests (stopWhisper s) = [] \<and>
         whisperProcess (stopWhisper s) = None \<and>
         sigterm (stopWhisper s) =
           (case whisperProcess s of None \<Rightarrow> sigterm s | Some p \<Rightarrow> sigterm s @ [p]) \<and>
         \<not> isWhisperReady (stopWhisper s)"
proof -
  have inv: "sound s" unfolding assms by (rule sound_run)
  let ?s0 = "s\<lparr> ready := False, circuitBroken := True \<rparr>"
  have "sound ?s0" using inv by (rule sound_cong) simp_all
  from rejectAllPending_ok [OF this, of "''Whisper server stopping''"]
  have cnt: "fired (rejectAllPending ''Whisper server stopping'' ?s0) j =
               fired s j + (if j \<in> (timer \<circ> snd) ` set (pendingRequests s) then 1 else 0)" for j
    by (simp add: fired_def)
  have same: "fired (stopWhisper s) j = fired (rejectAllPending ''Whisper server stopping'' ?s0) j"
    for j
    by (simp add: fired_def stopWhisper_def Let_def split: option.splits)
  have each: "fired s (promise (snd e)) = 0 \<and> fired (stopWhisper s) (promise (snd e)) = 1 \<and>
            \<not> armed (stopWhisper s) (timer (snd e))"
    if "e \<in> set (pendingRequests s)" for e
  proof -
    from sound_pending_armed [OF inv that]
    have a: "promise (snd e) = timer (snd e)" "fired s (promise (snd e)) = 0"
      by blast+
    have b: "\<not> armed (stopWhisper s) (timer (snd e))"
      using that by (auto simp: armed_iff stopWhisper_fields)
    from that have "timer (snd e) \<in> (timer \<circ> snd) ` set (pendingRequests s)"
      by auto
    with a b same [of "timer (snd e)"] cnt [of "timer (snd e)"] show ?thesis
      by simp
  qed
  then show ?thesis
    by (simp add: stopWhisper_fields isWhisperReady_def)
qed

text \<open>Two requests pending when the supervisor is stopped.\<close>

theorem stop_fails_all_pending_witness:
  "settled (stopWhisper (run wire [Start None 0, Stdout_line ''{\"ready\": true}'',
      Transcribe ''a.wav'', Transcribe ''b.wav''] init)) =
     [(0, Rejected (Error (JString ''Whisper server stopping''))),
      (1, Rejected (Error (JString ''Whisper server stopping'')))] \<and>
   fired (stopWhisper (run wire [Start None 0, Stdout_line ''{\"ready\": true}'',
      Transcribe ''a.wav'', Transcribe ''b.wav''] init)) 1 = 1 \<and>
   sigterm (stopWhisper (run wire [Start None 0, Stdout_line ''{\"ready\": true}'',
      Transcribe ''a.wav'', Transcribe ''b.wav''] init)) = [0] \<and>
   \<not> isWhisperReady (stopWhisper (run wire [Start None 0, Stdout_line ''{\"ready\": true}'',
      Transcribe ''a.wav'', Transcribe ''b.wav''] init))"
proof -
  let ?s = "run wire [Start None 0, Stdout_line ''{\"ready\": true}'',
      Transcribe ''a.wav'', Transcribe ''b.wav''] init"
  have a: "pendingRequests ?s =
             [(''req-1'', \<lparr> promise = 0, timer = 0 \<rparr>), (''req-2'', \<lparr> promise = 1, timer = 1 \<rparr>)]"
    and b: "settled ?s = []" and c: "whisperProcess ?s = Some 0" and d: "sigterm ?s = []"
    by (simp_all add: handler_defs)
  from stop_fails_all_pending [where s = ?s and P = wire, OF refl] a b c d show ?thesis
    by simp
qed

subsection \<open>Identifiers on the wire\<close>

lemma digit_inj:
  assumes "d < 10" and "d' < 10" and "''0123456789'' ! d = ''0123456789'' ! d'"
  shows "d = d'"
proof -
  have "distinct ''0123456789''" by simp
  moreover have "length ''0123456789'' = 10" by simp
  ultimately show ?thesis
    using assms by (simp add: nth_eq_iff_index_eq)
qed

lemma decimal_not_Nil: "decimal n \<noteq> []"
  by (subst decimal.simps) simp

lemma decimal_inj: "decimal m = decimal n \<Longrightarrow> m = n"
proof (induction m arbitrary: n rule: decimal.induct)
  case (1 m)
  show ?case
  proof (cases "m < 10")
    case True
    with "1.prems" have one: "decimal n = [''0123456789'' ! m]"
      by (subst (asm) decimal.simps) simp
    have "n < 10"
    proof (rule ccontr)
      assume "\<not> n < 10"
      then have "decimal n = decimal (n div 10) @ [''0123456789'' ! (n mod 10)]"
        by (subst decimal.simps) simp
      with one decimal_not_Nil [of "n div 10"] show False by simp
    qed
    with one have "''0123456789'' ! n = ''0123456789'' ! m"
      by (subst (asm) decimal.simps) simp
    with True \<open>n < 10\<close> show ?thesis by (metis digit_inj)
  next
    case False
    then have m: "decimal m = decimal (m div 10) @ [''0123456789'' ! (m mod 10)]"
      by (subst decimal.simps) simp
    have "\<not> n < 10"
    proof
      assume "n < 10"
      then have "decimal n = [''0123456789'' ! n]"
        by (subst decimal.simps) simp
      with m "1.prems" decimal_not_Nil [of "m div 10"] show False by simp
    qed
    then have n: "decimal n = decimal (n div 10) @ [''0123456789'' ! (n mod 10)]"
      by (subst decimal.simps) simp
    from m n "1.prems" have a: "decimal (m div 10) = decimal (n div 10)"
      and b: "''0123456789'' ! (m mod 10) = ''0123456789'' ! (n mod 10)"
      by simp_all
    from "1.IH" [OF False a] have "m div 10 = n div 10" .
    moreover from b have "m mod 10 = n mod 10"
      by (intro digit_inj) simp_all
    ultimately show ?thesis by (metis div_mult_mod_eq)
  qed
qed

lemma request_id_inj: "request_id m = request_id n \<Longrightarrow> m = n"
  by (simp add: request_id_def decimal_inj)

lemma update_fresh: "map_of xs k = None \<Longrightarrow> AList.update k v xs = xs @ [(k, v)]"
  by (induction xs) (auto split: if_splits)

lemma delete_fresh: "map_of xs k = None \<Longrightarrow> AList.delete k (xs @ [(k, v)]) = xs"
  by (induction xs) (auto split: if_splits)

lemma minted_cong:
  assumes "minted s" and "set (pendingRequests s') \<subseteq> set (pendingRequests s)"
    and "requestCounter s' = requestCounter s"
  shows "minted s'"
  using assms unfolding minted_def by (metis subsetD)

lemma incr_bounds: "n \<le> incr n" "1 \<le> incr n"
  by (simp_all add: incr_def)

lemma minted_transcribe:
  assumes "minted s" shows "minted (snd (transcribe filePath s))"
proof (cases "isWhisperReady s")
  case False
  with assms show ?thesis
    by (auto simp: transcribe_def isWhisperReady_def split: option.splits)
next
  case True
  then obtain w where w: "whisperProcess s = Some w" and r: "ready s" "\<not> circuitBroken s"
    by (auto simp: isWhisperReady_def)
  let ?s = "snd (transcribe filePath s)"
  let ?n = "incr (requestCounter s)"
  have flds: "requestCounter ?s = ?n"
    "pendingRequests ?s = AList.update (request_id ?n) \<lparr> promise = promises s, timer = promises s \<rparr>
       (pendingRequests s)"
    using w r by (simp_all add: transcribe_def Let_def)
  show ?thesis
    unfolding minted_def
  proof
    fix e assume "e \<in> set (pendingRequests ?s)"
    then have "e \<in> insert (request_id ?n, \<lparr> promise = promises s, timer = promises s \<rparr>)
                      (set (pendingRequests s))"
      using set_update_subset unfolding flds by (rule subsetD [rotated])
    then have "fst e = request_id ?n \<or> e \<in> set (pendingRequests s)"
      by auto
    then show "\<exists>n. 1 \<le> n \<and> n \<le> requestCounter ?s \<and> fst e = request_id n"
    proof
      assume "fst e = request_id ?n"
      then show ?thesis unfolding flds using incr_bounds(2) by blast
    next
      assume "e \<in> set (pendingRequests s)"
      with assms obtain n where "1 \<le> n" "n \<le> requestCounter s" "fst e = request_id n"
        unfolding minted_def by blast
      then show ?thesis unfolding flds using incr_bounds(1) [of "requestCounter s"]
        by (metis le_trans)
    qed
  qed
qed

lemma set_Map_delete_subset: "set (Map_delete i m) \<subseteq> set m"
  by (cases "(i, m)" rule: Map_delete.cases) (auto simp: AList_delete_filter)

lemma minted_step: "minted s \<Longrightarrow> minted (step P e s)"
proof (cases e)
  case (Transcribe f)
  assume "minted s"
  with Transcribe show ?thesis by (simp add: minted_transcribe)
next
  case (Stdout_line l)
  assume "minted s"
  moreover have "set (pendingRequests (stdout_line P l s)) \<subseteq> set (pendingRequests s)"
    using set_Map_delete_subset [of "property (the (P l)) ''id''" "pendingRequests s"]
    by (auto simp: stdout_line_def try_line_def respond_def Let_def
          split: option.splits sum.splits)
  moreover have "requestCounter (stdout_line P l s) = requestCounter s"
    by (auto simp: stdout_line_def try_line_def respond_def Let_def
          split: option.splits sum.splits)
  ultimately show ?thesis unfolding Stdout_line step.simps by (rule minted_cong)
next
  case (Timeout_fires h)
  assume "minted s"
  moreover have "set (pendingRequests (timeout_fires h s)) \<subseteq> set (pendingRequests s)"
    by (auto simp: timeout_fires_def AList_delete_filter split: option.splits)
  moreover have "requestCounter (timeout_fires h s) = requestCounter s"
    by (auto simp: timeout_fires_def split: option.splits)
  ultimately show ?thesis unfolding Timeout_fires step.simps by (rule minted_cong)
qed (auto simp: startWhisper_def stopWhisper_def Let_def stderr_line_def proc_error_def
       proc_exit_def respawn_fires_def split: option.splits list.splits
       elim!: minted_cong)

lemma minted_run: "minted (run P es init)"
proof -
  have "minted s \<Longrightarrow> minted (fold (step P) es s)" for s
    by (induction es arbitrary: s) (simp_all add: minted_step)
  moreover have "minted init" by (simp add: minted_def init_def)
  ultimately show ?thesis unfolding run_def by blast
qed


lemma hex_digit_no_newline: "d < 16 \<Longrightarrow> hex_digit d \<noteq> CHR 0x0A"
proof -
  assume "d < 16"
  then have "''0123456789abcdef'' ! d \<in> set ''0123456789abcdef''"
    by (intro nth_mem) simp
  then show ?thesis unfolding hex_digit_def by auto
qed

lemma quote_char_no_newline: "CHR 0x0A \<notin> set (quote_char c)"
proof -
  have "hex_digit (of_char c div 16) \<noteq> CHR 0x0A" if "(of_char c :: nat) < 32"
    using that by (intro hex_digit_no_newline) simp
  moreover have "hex_digit (of_char c mod 16) \<noteq> CHR 0x0A"
    by (intro hex_digit_no_newline) simp
  ultimately show ?thesis
    unfolding quote_char_def by (simp add: eq_commute [of "CHR 0x0A"])
qed

lemma JSON_quote_no_newline: "CHR 0x0A \<notin> set (JSON_quote s)"
  using quote_char_no_newline by (auto simp: JSON_quote_def)

lemma encode_request_one_line:
  "CHR 0x0A \<notin> set (butlast (encode_request ident filePath)) \<and>
   last (encode_request ident filePath) = CHR 0x0A"
proof -
  have "encode_request ident filePath =
          (''{'' @ JSON_quote ''id'' @ '':'' @ JSON_quote ident @ '','' @
           JSON_quote ''file'' @ '':'' @ JSON_quote filePath @ ''}'') @ [CHR 0x0A]"
    by (simp add: encode_request_def)
  then show ?thesis
    using JSON_quote_no_newline by (simp only: butlast_snoc last_snoc set_append) auto
qed

lemma hex_digit_value: "d < 16 \<Longrightarrow> hex_value (hex_digit d) = Some d"
proof -
  assume "d < 16"
  then consider "d = 0" | "d = 1" | "d = 2" | "d = 3" | "d = 4" | "d = 5" | "d = 6" | "d = 7"
    | "d = 8" | "d = 9" | "d = 10" | "d = 11" | "d = 12" | "d = 13" | "d = 14" | "d = 15"
    by (auto simp: less_Suc_eq numeral_eq_Suc)
  then show ?thesis
    by cases (simp_all add: hex_digit_def hex_value_def)
qed

lemma string_body_quote_char:
  "string_body (quote_char c @ r) =
     (case string_body r of None \<Rightarrow> None | Some (s, rest) \<Rightarrow> Some (c # s, rest))"
proof -
  consider "c = CHR 0x08" | "c = CHR 0x09" | "c = CHR 0x0A" | "c = CHR 0x0C" | "c = CHR 0x0D"
    | "c = CHR 0x22" | "c = CHR 0x5C"
    | "c \<notin> {CHR 0x08, CHR 0x09, CHR 0x0A, CHR 0x0C, CHR 0x0D, CHR 0x22, CHR 0x5C}"
      "(of_char c :: nat) < 32"
    | "c \<noteq> CHR 0x22" "c \<noteq> CHR 0x5C" "\<not> (of_char c :: nat) < 32"
    by auto
  then show ?thesis
  proof cases
    case 8
    let ?n = "of_char c :: nat"
    have hi: "?n div 16 < 16" and lo: "?n mod 16 < 16" using 8(2) by simp_all
    have same: "char_of (16 * (?n div 16) + ?n mod 16) = c"
      by simp
    have q: "quote_char c = [CHR 0x5C, CHR ''u'', CHR ''0'', CHR ''0'',
              hex_digit (?n div 16), hex_digit (?n mod 16)]"
      using 8 by (simp add: quote_char_def)
    have z: "hex_value CHR ''0'' = Some 0" by (simp add: hex_value_def)
    show ?thesis
      unfolding q using same
      by (simp add: unescape_def z hex_digit_value [OF hi] hex_digit_value [OF lo])
  next
    case 9
    then have "quote_char c = [c]"
      by (auto simp: quote_char_def)
    with 9 show ?thesis by simp
  qed (auto simp: quote_char_def unescape_def)
qed

lemma string_body_quoted:
  "string_body (concat (map quote_char s) @ CHR 0x22 # rest) = Some (s, rest)"
  by (induction s) (simp_all add: string_body_quote_char)

lemma string_literal_quoted: "string_literal (JSON_quote s @ rest) = Some (s, rest)"
  using string_body_quoted [of s rest] by (simp add: string_literal_def JSON_quote_def)

lemma skip_ws_quoted: "dropWhile is_ws (JSON_quote s @ rest) = JSON_quote s @ rest"
  by (simp add: JSON_quote_def is_ws_def)

lemma member_quoted:
  "member (JSON_quote k @ CHR '':'' # JSON_quote v @ rest) =
     Some ((k, JString v), dropWhile is_ws rest)"
  "member (JSON_quote k @ CHR '':'' # CHR '' '' # JSON_quote v @ rest) =
     Some ((k, JString v), dropWhile is_ws rest)"
  by (simp_all add: member_def string_literal_quoted skip_ws_quoted is_ws_def)

lemma parse_flat_request:
  "parse_flat (encode_request ident filePath) =
     Some (JObject [(''id'', JString ident), (''file'', JString filePath)])"
proof -
  let ?m2 = "JSON_quote ''file'' @ CHR '':'' # JSON_quote filePath @ [CHR ''}'', CHR 0x0A]"
  let ?m1 = "JSON_quote ''id'' @ CHR '':'' # JSON_quote ident @ CHR '','' # ?m2"
  have enc: "encode_request ident filePath = CHR ''{'' # ?m1"
    by (simp add: encode_request_def)
  have 2: "members ?m2 = Some ([(''file'', JString filePath)], [CHR 0x0A])"
    by (subst members.simps) (simp add: member_quoted is_ws_def)
  have "dropWhile is_ws ?m2 = ?m2"
    by (rule skip_ws_quoted [of "''file''", simplified append_assoc])
  then have 1: "members ?m1 =
      Some ([(''id'', JString ident), (''file'', JString filePath)], [CHR 0x0A])"
    by (subst members.simps) (simp add: member_quoted is_ws_def 2)
  obtain r where q: "?m1 = CHR 0x22 # r"
    by (simp add: JSON_quote_def)
  have "parse_flat (CHR ''{'' # ?m1) =
     Some (JObject [(''id'', JString ident), (''file'', JString filePath)])"
    using 1 unfolding q by (simp add: parse_flat_def is_ws_def)
  then show ?thesis unfolding enc .
qed

lemma parse_flat_response:
  "parse_flat (echo_response ident transcript) =
     Some (JObject [(''id'', JString ident), (''text'', JString transcript)])"
proof -
  let ?m2 = "JSON_quote ''text'' @ CHR '':'' # CHR '' '' # JSON_quote transcript @ [CHR ''}'']"
  let ?m1 = "JSON_quote ''id'' @ CHR '':'' # CHR '' '' # JSON_quote ident @ CHR '','' # CHR '' '' # ?m2"
  have enc: "echo_response ident transcript = CHR ''{'' # ?m1"
    by (simp add: echo_response_def)
  have 2: "members ?m2 = Some ([(''text'', JString transcript)], [])"
    by (subst members.simps) (simp add: member_quoted is_ws_def)
  have "dropWhile is_ws (CHR '' '' # ?m2) = ?m2"
    using skip_ws_quoted [of "''text''"] by (simp add: is_ws_def)
  then have 1: "members ?m1 =
      Some ([(''id'', JString ident), (''text'', JString transcript)], [])"
    by (subst members.simps) (simp add: member_quoted is_ws_def 2)
  obtain r where q: "?m1 = CHR 0x22 # r"
    by (simp add: JSON_quote_def)
  have "parse_flat (CHR ''{'' # ?m1) =
     Some (JObject [(''id'', JString ident), (''text'', JString transcript)])"
    using 1 unfolding q by (simp add: parse_flat_def is_ws_def)
  then show ?thesis unfolding enc .
qed

lemma echo_worker_request:
  "echo_worker (encode_request ident filePath) transcript = Some (echo_response ident transcript)"
  by (simp add: echo_worker_def parse_flat_request)

text \<open>
  C9: in a reachable, ready state whose counter is below \<open>2^53\<close> (where incrementing
  is exact), \<^verbatim>\<open>transcribe\<close> mints the identifier \<open>request_id (requestCounter s + 1)\<close>,
  which no other counter value prints as and which keys no pending entry, appends the
  entry of the new promise under it, and writes the request as one line ending in the
  only newline. Read by the JSON grammar, that line is the object of this identifier and
  the file path, so an echoing worker answers with a line that names the identifier; read
  in turn, the answer yields the identifier again. Given to the handler, it finds the
  entry registered for the request, calls its \<^verbatim>\<open>resolve\<close> with the transcript and
  leaves exactly the entries that were pending before. More generally, every response
  whose parsed \<^verbatim>\<open>id\<close> is that string finds and removes this entry and no other.
\<close>

theorem identifier_round_trip:
  assumes "s = run P es init" and "isWhisperReady s"
    and "requestCounter s < 9007199254740992"
  shows "let ident = request_id (requestCounter s + 1);
             k = promises s;
             s1 = snd (transcribe filePath s);
             reply = echo_response ident transcript
         in fst (transcribe filePath s) = Inr k \<and>
            (\<exists>w. whisperProcess s = Some w \<and>
                 stdin s1 = stdin s @ [(w, encode_request ident filePath)]) \<and>
            CHR 0x0A \<notin> set (butlast (encode_request ident filePath)) \<and>
            last (encode_request ident filePath) = CHR 0x0A \<and>
            parse_flat (encode_request ident filePath) =
              Some (JObject [(''id'', JString ident), (''file'', JString filePath)]) \<and>
            echo_worker (encode_request ident filePath) transcript = Some reply \<and>
            parse_flat reply =
              Some (JObject [(''id'', JString ident), (''text'', JString transcript)]) \<and>
            (\<forall>m. request_id m = ident \<longrightarrow> m = requestCounter s + 1) \<and>
            map_of (pendingRequests s) ident = None \<and>
            pendingRequests s1 = pendingRequests s @ [(ident, \<lparr> promise = k, timer = k \<rparr>)] \<and>
            (P reply = parse_flat reply \<longrightarrow>
               settled (stdout_line P reply s1) = settled s1 @ [(k, Resolved (JString transcript))] \<and>
               pendingRequests (stdout_line P reply s1) = pendingRequests s) \<and>
            (\<forall>line data.
               P line = Some data \<and> \<not> truthy (property data ''ready'') \<and>
               property data ''id'' = Some (JString ident) \<longrightarrow>
                 Map_get (pendingRequests s1) (property data ''id'') =
                   Some \<lparr> promise = k, timer = k \<rparr> \<and>
                 pendingRequests (stdout_line P line s1) = pendingRequests s)"
proof -
  define ident where "ident = request_id (requestCounter s + 1)"
  define k where "k = promises s"
  define s1 where "s1 = snd (transcribe filePath s)"
  define v where "v = \<lparr> promise = k, timer = k \<rparr>"
  define reply where "reply = echo_response ident transcript"
  from assms(2) obtain w where w: "whisperProcess s = Some w" and r: "ready s" "\<not> circuitBroken s"
    by (auto simp: isWhisperReady_def)
  from assms(3) have inc: "incr (requestCounter s) = requestCounter s + 1"
    by (simp add: incr_def)
  have res: "fst (transcribe filePath s) = Inr k"
    using w r by (simp add: transcribe_def Let_def k_def)
  have flds: "stdin s1 = stdin s @ [(w, encode_request ident filePath)]"
    "pendingRequests s1 = AList.update ident v (pendingRequests s)"
    "settled s1 = settled s"
    using w r inc by (simp_all add: s1_def transcribe_def Let_def ident_def k_def v_def)
  have "minted s" unfolding assms(1) by (rule minted_run)
  have fresh: "map_of (pendingRequests s) ident = None"
  proof (rule ccontr)
    assume "map_of (pendingRequests s) ident \<noteq> None"
    then obtain e where "(ident, e) \<in> set (pendingRequests s)"
      by (auto dest: map_of_SomeD)
    with \<open>minted s\<close> obtain n where n: "n \<le> requestCounter s" "ident = request_id n"
      unfolding minted_def by force
    from n(2) have "n = requestCounter s + 1"
      unfolding ident_def by (metis request_id_inj)
    with n(1) show False by simp
  qed
  from fresh have app: "pendingRequests s1 = pendingRequests s @ [(ident, v)]"
    unfolding flds by (rule update_fresh)
  have ne: "ident \<noteq> []" by (simp add: ident_def request_id_def)
  have found: "map_of (pendingRequests s1) ident = Some v"
    unfolding app using fresh by (simp add: map_add_Some_iff)
  have any: "Map_get (pendingRequests s1) (property data ''id'') = Some v \<and>
             pendingRequests (stdout_line P line s1) = pendingRequests s"
    if "P line = Some data \<and> \<not> truthy (property data ''ready'') \<and>
        property data ''id'' = Some (JString ident)" for line data
  proof -
    from that have nn: "data \<noteq> JNull" by auto
    from that nn ne found have "pendingRequests (stdout_line P line s1) =
        AList.delete ident (pendingRequests s1)"
      by (simp add: stdout_line_def try_line_def respond_def Let_def split: sum.splits)
    then show ?thesis
      unfolding app using delete_fresh [OF fresh] that found app by simp
  qed
  have dec: "parse_flat reply =
               Some (JObject [(''id'', JString ident), (''text'', JString transcript)])"
    unfolding reply_def by (rule parse_flat_response)
  have echo: "settled (stdout_line P reply s1) = settled s1 @ [(k, Resolved (JString transcript))] \<and>
              pendingRequests (stdout_line P reply s1) = pendingRequests s"
    if "P reply = parse_flat reply"
  proof -
    let ?d = "JObject [(''id'', JString ident), (''text'', JString transcript)]"
    from that dec have pl: "P reply = Some ?d" by simp
    have ans: "answer ?d = Inr (Resolved (JString transcript))"
      by (simp add: answer_def or_empty_def)
    from pl ne found ans have "stdout_line P reply s1 =
        s1\<lparr> pendingRequests := AList.delete ident (pendingRequests s1),
            timeouts := AList.delete (timer v) (timeouts s1),
            settled := settled s1 @ [(promise v, Resolved (JString transcript))] \<rparr>"
      by (simp add: stdout_line_def try_line_def respond_def Let_def)
    then show ?thesis
      unfolding app using delete_fresh [OF fresh] by (simp add: v_def)
  qed
  have inj: "\<forall>m. request_id m = ident \<longrightarrow> m = requestCounter s + 1"
    unfolding ident_def by (auto dest: request_id_inj)
  from res w flds(1) encode_request_one_line [of ident filePath] inj fresh app echo any
    parse_flat_request [of ident filePath] echo_worker_request [of ident filePath transcript] dec
  show ?thesis
    unfolding Let_def ident_def [symmetric] k_def [symmetric] s1_def [symmetric]
      v_def [symmetric] reply_def [symmetric]
    by blast
qed

theorem identifier_round_trip_witness:
  "fst (transcribe ''a.wav'' serving) = Inr 0 \<and>
   stdin (snd (transcribe ''a.wav'' serving)) = [(0, encode_request ''req-1'' ''a.wav'')] \<and>
   parse_flat (encode_request ''req-1'' ''a.wav'') =
     Some (JObject [(''id'', JString ''req-1''), (''file'', JString ''a.wav'')]) \<and>
   echo_worker (encode_request ''req-1'' ''a.wav'') ''hello'' =
     Some ''{\"id\": \"req-1\", \"text\": \"hello\"}'' \<and>
   pendingRequests (snd (transcribe ''a.wav'' serving)) = [(''req-1'', \<lparr> promise = 0, timer = 0 \<rparr>)] \<and>
   settled (stdout_line wire ''{\"id\": \"req-1\", \"text\": \"hello\"}''
     (snd (transcribe ''a.wav'' serving))) = [(0, Resolved (JString ''hello''))] \<and>
   pendingRequests (stdout_line wire ''{\"id\": \"req-1\", \"text\": \"hello\"}''
     (snd (transcribe ''a.wav'' serving))) = []"
proof -
  let ?l = "''{\"id\": \"req-1\", \"text\": \"hello\"}''"
  let ?d = "JObject [(''id'', JString ''req-1''), (''text'', JString ''hello'')]"
  have a: "serving = run wire [Start None 0, Stdout_line ''{\"ready\": true}''] init"
    by (simp add: serving_def)
  have b: "isWhisperReady serving" and c: "requestCounter serving < 9007199254740992"
    by (simp_all add: serving_eq isWhisperReady_def init_def)
  have d: "request_id (requestCounter serving + 1) = ''req-1''" and e: "promises serving = 0"
    and f: "whisperProcess serving = Some 0" and g: "stdin serving = []"
    and h: "pendingRequests serving = []" and i: "settled (snd (transcribe ''a.wav'' serving)) = []"
    by (simp_all add: serving_eq handler_defs)
  have l: "echo_response ''req-1'' ''hello'' = ?l"
    by (simp add: echo_response_def JSON_quote_def quote_char_def)
  note rt = identifier_round_trip [OF a b c, of "''a.wav''" "''hello''", unfolded Let_def d e h l]
  have j: "wire ?l = parse_flat ?l"
    using rt by (simp add: wire_def)
  from rt have p1: "fst (transcribe ''a.wav'' serving) = Inr 0"
    by blast
  from rt f g have p2: "stdin (snd (transcribe ''a.wav'' serving)) =
                          [(0, encode_request ''req-1'' ''a.wav'')]"
    by auto
  from rt have p3: "pendingRequests (snd (transcribe ''a.wav'' serving)) =
                      [(''req-1'', \<lparr> promise = 0, timer = 0 \<rparr>)]"
    by simp
  from rt j have p4: "settled (stdout_line wire ?l (snd (transcribe ''a.wav'' serving))) =
                        settled (snd (transcribe ''a.wav'' serving)) @ [(0, Resolved (JString ''hello''))] \<and>
                      pendingRequests (stdout_line wire ?l (snd (transcribe ''a.wav'' serving))) = []"
    by blast
  from rt have p5: "parse_flat (encode_request ''req-1'' ''a.wav'') =
     Some (JObject [(''id'', JString ''req-1''), (''file'', JString ''a.wav'')])"
    and p6: "echo_worker (encode_request ''req-1'' ''a.wav'') ''hello'' = Some ?l"
    by blast+
  from p1 p2 p3 p4 p5 p6 i show ?thesis
    by simp
qed

end
